theory Spec2Isabelle
  imports Complex_Main "HOL-Library.Monad_Syntax"
begin

section \<open>Status: the rolling statistical window\<close>

text \<open>
  The class \<open>Status\<close> that \<open>circuit.ts\<close> instantiates with \<open>new Status()\<close> and
  drives through \<open>increment\<close>, \<open>open\<close>, \<open>close\<close> and \<open>stats\<close>: ten buckets over a
  window of 10000 ms. Buckets are JavaScript objects, so the window is an array of
  references into an object store; \<open>bucket()\<close> allocates a new object at every call.
  Counters are JavaScript numbers that only ever hold natural numbers (they start at
  \<open>0\<close> and change by \<open>++\<close> and \<open>+=\<close> only); they are modelled as \<open>nat\<close>.

  The sources hold a second class \<open>Status\<close>, with three buckets over a window of
  \<open>resetTimeout\<close> ms, a logger and no \<open>open\<close> and \<open>close\<close>; it is not the one that
  \<open>circuit.ts\<close> uses, which constructs its status object without arguments and calls
  \<open>open()\<close> and \<open>close()\<close> on it. Its \<open>stats\<close>, \<open>increment\<close> and \<open>nextBucket\<close> are the
  same as here.
\<close>

text \<open>The field \<open>isCircuitBreakerOpen\<close> holds a boolean in a window bucket, and a number
  once \<open>+=\<close> or \<open>++\<close> has been applied to it.\<close>

datatype jsflag = FBool bool | FNum nat

fun flag_truthy :: "jsflag \<Rightarrow> bool" where
  "flag_truthy (FBool b) = b"
| "flag_truthy (FNum n) = (n \<noteq> 0)"

fun flag_number :: "jsflag \<Rightarrow> nat" where
  "flag_number (FBool b) = (if b then 1 else 0)"
| "flag_number (FNum n) = n"

record StatusBucket =
  failures :: nat
  successes :: nat
  rejects :: nat
  fires :: nat
  timeouts :: nat
  isCircuitBreakerOpen :: jsflag

text \<open>The keys that \<open>increment\<close> is called with.\<close>

datatype property = Failures | Successes | Rejects | Fires | Timeouts

type_synonym addr = nat

record Status =
  store :: "addr \<Rightarrow> StatusBucket"
  fresh :: addr
  BUCKETS :: nat
  TIMEOUT :: nat
  WINDOW :: "addr option list"
  BUCKET_INTERVAL :: nat

text \<open>The object literal of \<open>bucket()\<close>.\<close>

definition new_bucket :: StatusBucket where
  "new_bucket = \<lparr>failures = 0, successes = 0, rejects = 0, fires = 0, timeouts = 0,
     isCircuitBreakerOpen = FBool False\<rparr>"

text \<open>\<open>bucket()\<close>: a new object, at an address of the store that nothing refers to yet.\<close>

definition Status_bucket :: "Status \<Rightarrow> addr \<times> Status" where
  "Status_bucket s =
     (fresh s, s\<lparr>store := (store s)(fresh s := new_bucket), fresh := Suc (fresh s)\<rparr>)"

text \<open>The constructor: \<open>new Array(BUCKETS)\<close> is an array of \<open>BUCKETS\<close> holes, filled by
  the loop \<open>for (let i = 0; i < BUCKETS; i++) WINDOW[i] = bucket()\<close>; the rotation timer
  has period \<open>Math.floor(TIMEOUT / BUCKETS)\<close>. The store starts without any object:
  what it holds at an address from \<open>fresh\<close> on is never read.\<close>

definition prime_step :: "nat \<Rightarrow> Status \<Rightarrow> Status" where
  "prime_step i s = (let (a, s') = Status_bucket s in s'\<lparr>WINDOW := (WINDOW s')[i := Some a]\<rparr>)"

definition Status_new :: Status where
  "Status_new =
     (let s0 = \<lparr>store = (\<lambda>_. new_bucket), fresh = 0, BUCKETS = 10, TIMEOUT = 10000,
                 WINDOW = [], BUCKET_INTERVAL = 0\<rparr>;
          s1 = s0\<lparr>WINDOW := replicate (BUCKETS s0) None\<rparr>;
          s2 = fold prime_step [0..<BUCKETS s1] s1
      in s2\<lparr>BUCKET_INTERVAL := TIMEOUT s2 div BUCKETS s2\<rparr>)"

text \<open>\<open>val[key] || 0\<close> on a counter and on the flag.\<close>

definition or_zero :: "nat \<Rightarrow> nat" where
  "or_zero n = (if n \<noteq> 0 then n else 0)"

definition flag_or_zero :: "jsflag \<Rightarrow> jsflag" where
  "flag_or_zero f = (if flag_truthy f then f else FNum 0)"

text \<open>The body of the reducer, \<open>acc[key] += val[key] || 0\<close> for every key of \<open>acc\<close>;
  on the flag \<open>+=\<close> converts both operands to numbers.\<close>

definition add_into :: "StatusBucket \<Rightarrow> StatusBucket \<Rightarrow> StatusBucket" where
  "add_into acc val =
     \<lparr>failures = failures acc + or_zero (failures val),
      successes = successes acc + or_zero (successes val),
      rejects = rejects acc + or_zero (rejects val),
      fires = fires acc + or_zero (fires val),
      timeouts = timeouts acc + or_zero (timeouts val),
      isCircuitBreakerOpen =
        FNum (flag_number (isCircuitBreakerOpen acc)
              + flag_number (flag_or_zero (isCircuitBreakerOpen val)))\<rparr>"

text \<open>One call of the reducer on the accumulator object at \<open>acc\<close>: \<open>if (!val) return acc\<close>,
  otherwise the accumulator object is updated in the store.\<close>

definition reducer :: "addr \<Rightarrow> addr option \<Rightarrow> Status \<Rightarrow> Status" where
  "reducer acc val s =
     (case val of
        None \<Rightarrow> s
      | Some v \<Rightarrow> s\<lparr>store := (store s)(acc := add_into (store s acc) (store s v))\<rparr>)"

text \<open>The getter \<open>stats\<close>: \<open>WINDOW.reduce(reducer, bucket())\<close>. It returns the totals
  object (its fields, as read from the store after the reduction) and the object store
  it leaves behind.\<close>

definition Status_stats :: "Status \<Rightarrow> StatusBucket \<times> Status" where
  "Status_stats s =
     (let (acc, s1) = Status_bucket s;
          s2 = fold (reducer acc) (WINDOW s1) s1
      in (store s2 acc, s2))"

text \<open>\<open>WINDOW[0][property]++\<close>. Reading a property of \<open>undefined\<close> (an empty window, or
  a hole at index 0) throws a TypeError: the result is \<open>None\<close>.\<close>

fun bump :: "property \<Rightarrow> StatusBucket \<Rightarrow> StatusBucket" where
  "bump Failures b = b\<lparr>failures := failures b + 1\<rparr>"
| "bump Successes b = b\<lparr>successes := successes b + 1\<rparr>"
| "bump Rejects b = b\<lparr>rejects := rejects b + 1\<rparr>"
| "bump Fires b = b\<lparr>fires := fires b + 1\<rparr>"
| "bump Timeouts b = b\<lparr>timeouts := timeouts b + 1\<rparr>"

definition head_bucket :: "Status \<Rightarrow> addr option" where
  "head_bucket s = (case WINDOW s of [] \<Rightarrow> None | v # _ \<Rightarrow> v)"

definition update_head :: "(StatusBucket \<Rightarrow> StatusBucket) \<Rightarrow> Status \<Rightarrow> Status option" where
  "update_head f s =
     (case head_bucket s of
        None \<Rightarrow> None
      | Some a \<Rightarrow> Some (s\<lparr>store := (store s)(a := f (store s a))\<rparr>))"

definition Status_increment :: "property \<Rightarrow> Status \<Rightarrow> Status option" where
  "Status_increment p s = update_head (bump p) s"

text \<open>\<open>open()\<close> and \<open>close()\<close>: \<open>WINDOW[0].isCircuitBreakerOpen = true / false\<close>.\<close>

definition Status_open :: "Status \<Rightarrow> Status option" where
  "Status_open s = update_head (\<lambda>b. b\<lparr>isCircuitBreakerOpen := FBool True\<rparr>) s"

definition Status_close :: "Status \<Rightarrow> Status option" where
  "Status_close s = update_head (\<lambda>b. b\<lparr>isCircuitBreakerOpen := FBool False\<rparr>) s"

text \<open>\<open>nextBucket()\<close>, run by the interval timer: \<open>WINDOW.pop()\<close> drops the last element
  (nothing, on an empty array), \<open>WINDOW.unshift(bucket())\<close> puts a new bucket in front.\<close>

definition Status_nextBucket :: "Status \<Rightarrow> Status" where
  "Status_nextBucket s =
     (let s1 = s\<lparr>WINDOW := butlast (WINDOW s)\<rparr>;
          (a, s2) = Status_bucket s1
      in s2\<lparr>WINDOW := Some a # WINDOW s2\<rparr>)"


subsection \<open>The window as a list of buckets\<close>

text \<open>The references held by the window, holes skipped as \<open>reduce\<close> skips them.\<close>

fun refs :: "addr option list \<Rightarrow> addr list" where
  "refs [] = []"
| "refs (None # w) = refs w"
| "refs (Some a # w) = a # refs w"

text \<open>What the constructor establishes and every method keeps: the window starts with
  a bucket, no bucket is in the window twice, and every bucket of the window has been
  allocated.\<close>

definition status_ok :: "Status \<Rightarrow> bool" where
  "status_ok s \<longleftrightarrow>
     head_bucket s \<noteq> None \<and> distinct (refs (WINDOW s)) \<and> list_all (\<lambda>a. a < fresh s) (refs (WINDOW s))"

text \<open>The buckets of the window, read from the store.\<close>

definition window_buckets :: "Status \<Rightarrow> StatusBucket list" where
  "window_buckets s = map (store s) (refs (WINDOW s))"

text \<open>The counter of a bucket that a key names, and its sum over the window.\<close>

fun counter :: "property \<Rightarrow> StatusBucket \<Rightarrow> nat" where
  "counter Failures b = failures b"
| "counter Successes b = successes b"
| "counter Rejects b = rejects b"
| "counter Fires b = fires b"
| "counter Timeouts b = timeouts b"

definition tally :: "Status \<Rightarrow> property \<Rightarrow> nat" where
  "tally s q = sum_list (map (counter q) (window_buckets s))"


section \<open>JavaScript values of the options\<close>

text \<open>
  An option of the breaker holds \<open>undefined\<close> (when it is absent), a boolean or a
  number. A JavaScript number is a finite value (every double is a rational; \<open>0\<close> and
  \<open>-0\<close> behave alike in all that the breaker does with them), \<open>NaN\<close> or an infinity.
\<close>

datatype jsnum = Finite rat | NaN | PosInfinity | NegInfinity

datatype jsval = Undefined | JBool bool | JNum jsnum

fun truthy :: "jsval \<Rightarrow> bool" where
  "truthy Undefined = False"
| "truthy (JBool b) = b"
| "truthy (JNum (Finite r)) = (r \<noteq> 0)"
| "truthy (JNum NaN) = False"
| "truthy (JNum PosInfinity) = True"
| "truthy (JNum NegInfinity) = True"

text \<open>\<open>a || b\<close>\<close>

definition js_or :: "jsval \<Rightarrow> jsval \<Rightarrow> jsval" where
  "js_or a b = (if truthy a then a else b)"

text \<open>\<open>Number.isInteger(v)\<close>: a finite number without fractional part.\<close>

fun isInteger :: "jsval \<Rightarrow> bool" where
  "isInteger (JNum (Finite r)) = (of_int \<lfloor>r\<rfloor> = r)"
| "isInteger _ = False"

text \<open>\<open>n >= v\<close> for a counter \<open>n\<close>: \<open>v\<close> is converted to a number, and a comparison
  with \<open>NaN\<close> is false.\<close>

fun toNumber :: "jsval \<Rightarrow> jsnum" where
  "toNumber Undefined = NaN"
| "toNumber (JBool b) = Finite (if b then 1 else 0)"
| "toNumber (JNum n) = n"

fun ge_jsnum :: "nat \<Rightarrow> jsnum \<Rightarrow> bool" where
  "ge_jsnum n (Finite r) = (r \<le> of_nat n)"
| "ge_jsnum n NaN = False"
| "ge_jsnum n PosInfinity = False"
| "ge_jsnum n NegInfinity = True"

definition js_ge :: "nat \<Rightarrow> jsval \<Rightarrow> bool" where
  "js_ge n v = ge_jsnum n (toNumber v)"

text \<open>Modelled from the spec: the type \<open>CircuitBreakerOptions\<close> of \<open>types.ts\<close>, which
  is not among the sources. The spec and the README give it four optional fields:
  \<open>timeout\<close> (a number or a boolean), \<open>maxFailures\<close> and \<open>resetTimeout\<close> (numbers) and
  \<open>debug\<close> (a boolean).\<close>

record CircuitBreakerOptions =
  timeout :: jsval
  resetTimeout :: jsval
  maxFailures :: jsval
  debug :: jsval

section \<open>The circuit breaker\<close>

text \<open>
  \<open>circuit.ts\<close>. The breaker lives in an event loop: besides the fields of the object,
  the state holds the timers created with \<open>setTimeout\<close>, the closure of every call made
  so far (its local variables \<open>timeout\<close> and \<open>timeoutError\<close>, and the promise handed to
  the caller), the events emitted so far, in order, and the number of times the guarded
  action has been invoked.
\<close>

datatype state = OPEN | CLOSED | HALF_OPEN

text \<open>\<open>buildError(code)\<close> for the two codes of \<open>common.ts\<close>, and whatever the action throws
  or rejects with.\<close>

datatype error = EOPENBREAKER | ETIMEDOUT | ActionError string

type_synonym jsargs = "string list"

datatype event =
    Fire jsargs
  | Reject error
  | Timeout error jsargs
  | Failure error jsargs
  | Success
  | Open
  | Close
  | HalfOpen jsval

datatype callback = ResetCallback | TimeoutCallback nat

record timer =
  callback :: callback
  delay :: jsval
  pending :: bool

datatype promise_state = Pending | Resolved string | Rejected error

record call_closure =
  call_args :: jsargs
  call_timeout :: "nat option"
  timeoutError :: bool
  promise :: promise_state
  action_pending :: bool

record CircuitBreaker =
  options :: CircuitBreakerOptions
  STATE :: state
  PENDING_CLOSE :: bool
  STATUS :: Status
  RESET_TIMEOUT :: "nat option"
  timers :: "timer list"
  calls :: "call_closure list"
  emitted :: "event list"
  invocations :: nat

definition closed :: "CircuitBreaker \<Rightarrow> bool" where
  "closed b = (STATE b = CLOSED)"

definition halfOpen :: "CircuitBreaker \<Rightarrow> bool" where
  "halfOpen b = (STATE b = HALF_OPEN)"

definition opened :: "CircuitBreaker \<Rightarrow> bool" where
  "opened b = (STATE b = OPEN)"

subsection \<open>Timers and promises\<close>

text \<open>\<open>setTimeout(cb, d)\<close> returns a new handle; \<open>clearTimeout(h)\<close> keeps the timer behind
  \<open>h\<close> from firing, and does nothing for \<open>undefined\<close>.\<close>

definition setTimeout :: "callback \<Rightarrow> jsval \<Rightarrow> CircuitBreaker \<Rightarrow> nat \<times> CircuitBreaker" where
  "setTimeout cb d b =
     (length (timers b), b\<lparr>timers := timers b @ [\<lparr>callback = cb, delay = d, pending = True\<rparr>]\<rparr>)"

definition cancel :: "nat \<Rightarrow> timer list \<Rightarrow> timer list" where
  "cancel h ts = (if h < length ts then ts[h := (ts ! h)\<lparr>pending := False\<rparr>] else ts)"

definition clearTimeout :: "nat option \<Rightarrow> CircuitBreaker \<Rightarrow> CircuitBreaker" where
  "clearTimeout h b = (case h of None \<Rightarrow> b | Some t \<Rightarrow> b\<lparr>timers := cancel t (timers b)\<rparr>)"

text \<open>The \<open>resolve\<close> and \<open>reject\<close> functions of the promise of call \<open>cid\<close>: a promise
  settles once, later calls are ignored.\<close>

definition settle_promise :: "promise_state \<Rightarrow> call_closure \<Rightarrow> call_closure" where
  "settle_promise p c = (if promise c = Pending then c\<lparr>promise := p\<rparr> else c)"

definition update_call :: "nat \<Rightarrow> (call_closure \<Rightarrow> call_closure) \<Rightarrow> CircuitBreaker \<Rightarrow> CircuitBreaker" where
  "update_call cid f b =
     (if cid < length (calls b) then b\<lparr>calls := (calls b)[cid := f (calls b ! cid)]\<rparr> else b)"

definition resolve :: "nat \<Rightarrow> string \<Rightarrow> CircuitBreaker \<Rightarrow> CircuitBreaker" where
  "resolve cid v b = update_call cid (settle_promise (Resolved v)) b"

definition reject :: "nat \<Rightarrow> error \<Rightarrow> CircuitBreaker \<Rightarrow> CircuitBreaker" where
  "reject cid e b = update_call cid (settle_promise (Rejected e)) b"

subsection \<open>The constructor and its listeners\<close>

text \<open>The constructor throws a TypeError (\<open>None\<close>) unless the action is a function;
  \<open>invocable\<close> says whether it is.\<close>

definition CircuitBreaker_new :: "bool \<Rightarrow> CircuitBreakerOptions \<Rightarrow> CircuitBreaker option" where
  "CircuitBreaker_new invocable opts =
     (if \<not> invocable then None
      else Some
        \<lparr>options =
           \<lparr>timeout = (if timeout opts = JBool False then JBool False
                        else js_or (timeout opts) (JNum (Finite 10000))),
            resetTimeout = js_or (resetTimeout opts) (JNum (Finite 30000)),
            maxFailures = (if isInteger (maxFailures opts) then maxFailures opts
                           else JNum (Finite 10)),
            debug = JBool (truthy (debug opts))\<rparr>,
         STATE = CLOSED,
         PENDING_CLOSE = False,
         STATUS = Status_new,
         RESET_TIMEOUT = None,
         timers = [],
         calls = [],
         emitted = [],
         invocations = 0\<rparr>)"

text \<open>\<open>startResetTimer()\<close>; the callback of its timer is \<open>reset_callback\<close> below.\<close>

definition startResetTimer :: "CircuitBreaker \<Rightarrow> CircuitBreaker" where
  "startResetTimer b =
     (let (h, b') = setTimeout ResetCallback (resetTimeout (options b)) b
      in b'\<lparr>RESET_TIMEOUT := Some h\<rparr>)"

text \<open>The listeners that only count: \<open>this[STATUS].increment(property)\<close>. A TypeError
  thrown by the status object is \<open>None\<close>, here and in everything that emits: the model
  does not follow the program beyond it, and \<open>run_never_throws\<close> below shows that no
  run of a breaker gets there.\<close>

definition count :: "property \<Rightarrow> CircuitBreaker \<Rightarrow> CircuitBreaker option" where
  "count p b = do { s \<leftarrow> Status_increment p (STATUS b); Some (b\<lparr>STATUS := s\<rparr>) }"

definition on_open :: "CircuitBreaker \<Rightarrow> CircuitBreaker option" where
  "on_open b = do { s \<leftarrow> Status_open (STATUS b); Some (startResetTimer (b\<lparr>STATUS := s\<rparr>)) }"

definition on_close :: "CircuitBreaker \<Rightarrow> CircuitBreaker option" where
  "on_close b = do { s \<leftarrow> Status_close (STATUS b); Some (b\<lparr>STATUS := s\<rparr>) }"

definition record_event :: "event \<Rightarrow> CircuitBreaker \<Rightarrow> CircuitBreaker" where
  "record_event e b = b\<lparr>emitted := emitted b @ [e]\<rparr>"

text \<open>\<open>emit\<close> runs the listeners of the event at once. The listener of \<open>success\<close> calls
  \<open>close()\<close>, which emits \<open>close\<close>: \<open>emit\<close> is defined for \<open>open\<close> and \<open>close\<close> first.\<close>

definition emit_open :: "CircuitBreaker \<Rightarrow> CircuitBreaker option" where
  "emit_open b = on_open (record_event Open b)"

definition emit_close :: "CircuitBreaker \<Rightarrow> CircuitBreaker option" where
  "emit_close b = on_close (record_event Close b)"

definition close :: "CircuitBreaker \<Rightarrow> CircuitBreaker option" where
  "close b =
     (if STATE b \<noteq> CLOSED then
        let b1 = (case RESET_TIMEOUT b of None \<Rightarrow> b | Some h \<Rightarrow> clearTimeout (Some h) b)
        in emit_close (b1\<lparr>STATE := CLOSED, PENDING_CLOSE := False\<rparr>)
      else Some b)"

definition open' :: "CircuitBreaker \<Rightarrow> CircuitBreaker option" where
  "open' b =
     (if STATE b \<noteq> OPEN then emit_open (b\<lparr>STATE := OPEN, PENDING_CLOSE := False\<rparr>)
      else Some b)"

definition on_success :: "CircuitBreaker \<Rightarrow> CircuitBreaker option" where
  "on_success b = do { b1 \<leftarrow> count Successes b; if halfOpen b1 then close b1 else Some b1 }"

fun listeners :: "event \<Rightarrow> CircuitBreaker \<Rightarrow> CircuitBreaker option" where
  "listeners Success b = on_success b"
| "listeners (Failure e a) b = count Failures b"
| "listeners (Timeout e a) b = count Timeouts b"
| "listeners (Fire a) b = count Fires b"
| "listeners (Reject e) b = count Rejects b"
| "listeners Open b = on_open b"
| "listeners Close b = on_close b"
| "listeners (HalfOpen d) b = Some b"

definition emit :: "event \<Rightarrow> CircuitBreaker \<Rightarrow> CircuitBreaker option" where
  "emit e b = listeners e (record_event e b)"

subsection \<open>Failing and calling\<close>

text \<open>\<open>fail(error, args)\<close>: the getter \<open>stats\<close> is read after the failure is counted.\<close>

definition fail :: "error \<Rightarrow> jsargs \<Rightarrow> CircuitBreaker \<Rightarrow> CircuitBreaker option" where
  "fail e a b = do {
     b1 \<leftarrow> emit (Failure e a) b;
     let (stats, s) = Status_stats (STATUS b1);
         b2 = b1\<lparr>STATUS := s\<rparr>
     in if js_ge (failures stats) (maxFailures (options b2)) \<or> halfOpen b2 then open' b2
        else Some b2
   }"

text \<open>\<open>handleError(error, timeout, args, reject)\<close>, with the call whose \<open>reject\<close> it is.\<close>

definition handleError ::
  "error \<Rightarrow> nat option \<Rightarrow> jsargs \<Rightarrow> nat \<Rightarrow> CircuitBreaker \<Rightarrow> CircuitBreaker option" where
  "handleError e t a cid b = do {
     b1 \<leftarrow> fail e a (clearTimeout t b);
     Some (reject cid e b1)
   }"

text \<open>What the action does when it is invoked: it throws, or it returns a promise
  (its declared type is \<open>(...args) => Promise\<close>), which settles later or never. A
  value that is not a promise is wrapped by \<open>Promise.resolve\<close> and is a promise that
  fulfils; \<open>undefined\<close> and \<open>null\<close>, which the declared type excludes, are left out.\<close>

datatype action_result = Throws error | Returns

datatype settlement = Fulfils string | RejectsWith error

text \<open>\<open>call(context, ...rest)\<close>, up to the point where it returns its promise. The result
  is the index of the new call closure, and the new state.\<close>

definition call :: "jsargs \<Rightarrow> action_result \<Rightarrow> CircuitBreaker \<Rightarrow> (nat \<times> CircuitBreaker) option" where
  "call a act b = do {
     b1 \<leftarrow> emit (Fire a) b;
     let cid = length (calls b1) in
     if \<not> closed b1 \<and> \<not> halfOpen b1 then do {
       b2 \<leftarrow> emit (Reject EOPENBREAKER) b1;
       Some (cid, b2\<lparr>calls := calls b2 @
         [\<lparr>call_args = a, call_timeout = None, timeoutError = False,
           promise = Rejected EOPENBREAKER, action_pending = False\<rparr>]\<rparr>)
     } else do {
       let b2 = b1\<lparr>PENDING_CLOSE := False\<rparr>;
           (t, b3) = (if truthy (timeout (options b2))
                      then (let (h, b') = setTimeout (TimeoutCallback cid) (timeout (options b2)) b2
                            in (Some h, b'))
                      else (None, b2));
           b4 = b3\<lparr>calls := calls b3 @
                  [\<lparr>call_args = a, call_timeout = t, timeoutError = False,
                    promise = Pending, action_pending = False\<rparr>],
                  invocations := invocations b3 + 1\<rparr>
       in case act of
            Throws e \<Rightarrow> map_option (Pair cid) (handleError e t a cid b4)
          | Returns \<Rightarrow> Some (cid, update_call cid (\<lambda>c. c\<lparr>action_pending := True\<rparr>) b4)
     }
   }"

text \<open>\<open>fire(...args)\<close> is \<open>call\<close> with the action as context.\<close>

definition fire :: "jsargs \<Rightarrow> action_result \<Rightarrow> CircuitBreaker \<Rightarrow> (nat \<times> CircuitBreaker) option" where
  "fire a act b = call a act b"

subsection \<open>Callbacks run by the event loop\<close>

text \<open>The callback of the timer of \<open>startResetTimer\<close>.\<close>

definition reset_callback :: "CircuitBreaker \<Rightarrow> CircuitBreaker option" where
  "reset_callback b =
     emit (HalfOpen (resetTimeout (options b))) (b\<lparr>STATE := HALF_OPEN, PENDING_CLOSE := True\<rparr>)"

text \<open>The callback of the timer of call \<open>cid\<close>.\<close>

definition timeout_callback :: "nat \<Rightarrow> CircuitBreaker \<Rightarrow> CircuitBreaker option" where
  "timeout_callback cid b =
     (if cid < length (calls b) then do {
        let b1 = update_call cid (\<lambda>c. c\<lparr>timeoutError := True\<rparr>) b;
        let c = calls b1 ! cid;
        b2 \<leftarrow> emit (Timeout ETIMEDOUT (call_args c)) b1;
        handleError ETIMEDOUT (call_timeout c) (call_args c) cid b2
      } else Some b)"

text \<open>The \<open>then\<close> and \<open>catch\<close> callbacks on the promise of the action, for call \<open>cid\<close>.\<close>

definition then_callback :: "nat \<Rightarrow> string \<Rightarrow> CircuitBreaker \<Rightarrow> CircuitBreaker option" where
  "then_callback cid v b =
     (let c = calls b ! cid in
      if \<not> timeoutError c then do {
        b1 \<leftarrow> emit Success (clearTimeout (call_timeout c) b);
        Some (resolve cid v b1)
      } else Some b)"

definition catch_callback :: "nat \<Rightarrow> error \<Rightarrow> CircuitBreaker \<Rightarrow> CircuitBreaker option" where
  "catch_callback cid e b =
     (let c = calls b ! cid in
      if \<not> timeoutError c then handleError e (call_timeout c) (call_args c) cid b
      else Some b)"

text \<open>The event loop runs a timer that is pending, once, and the callbacks of the
  action's promise when that promise settles, once. A timer that has been cleared or
  has fired, and a promise that is not pending, give the loop nothing to run.\<close>

definition timer_fires :: "nat \<Rightarrow> CircuitBreaker \<Rightarrow> CircuitBreaker option" where
  "timer_fires h b =
     (if h < length (timers b) \<and> pending (timers b ! h) then
        let b1 = b\<lparr>timers := cancel h (timers b)\<rparr>
        in case callback (timers b ! h) of
             ResetCallback \<Rightarrow> reset_callback b1
           | TimeoutCallback cid \<Rightarrow> timeout_callback cid b1
      else Some b)"

definition action_settles :: "nat \<Rightarrow> settlement \<Rightarrow> CircuitBreaker \<Rightarrow> CircuitBreaker option" where
  "action_settles cid r b =
     (if cid < length (calls b) \<and> action_pending (calls b ! cid) then
        let b1 = update_call cid (\<lambda>c. c\<lparr>action_pending := False\<rparr>) b
        in case r of
             Fulfils v \<Rightarrow> then_callback cid v b1
           | RejectsWith e \<Rightarrow> catch_callback cid e b1
      else Some b)"

text \<open>The interval timer of the status object.\<close>

definition rotate :: "CircuitBreaker \<Rightarrow> CircuitBreaker" where
  "rotate b = b\<lparr>STATUS := Status_nextBucket (STATUS b)\<rparr>"

text \<open>One step of a run of the program, and a run.\<close>

datatype step =
    DoFire jsargs action_result
  | DoClose
  | DoOpen
  | TimerFires nat
  | ActionSettles nat settlement
  | Rotate

fun exec :: "step \<Rightarrow> CircuitBreaker \<Rightarrow> CircuitBreaker option" where
  "exec (DoFire a act) b = map_option snd (fire a act b)"
| "exec DoClose b = close b"
| "exec DoOpen b = open' b"
| "exec (TimerFires h) b = timer_fires h b"
| "exec (ActionSettles cid r) b = action_settles cid r b"
| "exec Rotate b = Some (rotate b)"

fun run :: "step list \<Rightarrow> CircuitBreaker \<Rightarrow> CircuitBreaker option" where
  "run [] b = Some b"
| "run (x # xs) b = (case exec x b of None \<Rightarrow> None | Some b' \<Rightarrow> run xs b')"

section \<open>Notions used in the statements\<close>

subsection \<open>Observations and rules\<close>

text \<open>The windowed totals of a breaker, and one more event of kind \<open>p\<close>.\<close>

definition counts :: "CircuitBreaker \<Rightarrow> property \<Rightarrow> nat" where
  "counts b = tally (STATUS b)"

definition add1 :: "property \<Rightarrow> (property \<Rightarrow> nat) \<Rightarrow> property \<Rightarrow> nat" where
  "add1 p t = t(p := t p + 1)"

text \<open>The rule that \<open>fail\<close> evaluates once one more failure is counted: the breaker is
  to be Open, and \<open>open()\<close> has something to do.\<close>

definition reopen_rule :: "CircuitBreaker \<Rightarrow> bool" where
  "reopen_rule b \<longleftrightarrow>
     js_ge (counts b Failures + 1) (maxFailures (options b)) \<or> STATE b = HALF_OPEN"

definition trips :: "CircuitBreaker \<Rightarrow> bool" where
  "trips b \<longleftrightarrow> reopen_rule b \<and> STATE b \<noteq> OPEN"

text \<open>What \<open>open()\<close> does to the fields of a breaker that is not Open, and what
  \<open>close()\<close> does to the fields of a breaker that is not Closed, the status object
  apart.\<close>

definition tripped :: "CircuitBreaker \<Rightarrow> CircuitBreaker" where
  "tripped b =
     b\<lparr>STATE := OPEN, PENDING_CLOSE := False, emitted := emitted b @ [Open],
       timers := timers b @
         [\<lparr>callback = ResetCallback, delay = resetTimeout (options b), pending = True\<rparr>],
       RESET_TIMEOUT := Some (length (timers b))\<rparr>"

definition restored :: "CircuitBreaker \<Rightarrow> CircuitBreaker" where
  "restored b =
     b\<lparr>STATE := CLOSED, PENDING_CLOSE := False, emitted := emitted b @ [Close],
       timers := (case RESET_TIMEOUT b of None \<Rightarrow> timers b | Some h \<Rightarrow> cancel h (timers b))\<rparr>"

text \<open>An admitted call at the moment the action is invoked: \<open>fire\<close> has been emitted
  (\<open>s\<close> is the status object after it), the timeout clock is armed unless the timeout
  is disabled, the closure of the call exists and the invocation is counted.\<close>

definition armed :: "CircuitBreaker \<Rightarrow> nat option" where
  "armed b = (if truthy (timeout (options b)) then Some (length (timers b)) else None)"

definition entered :: "jsargs \<Rightarrow> Status \<Rightarrow> CircuitBreaker \<Rightarrow> CircuitBreaker" where
  "entered a s b =
     b\<lparr>emitted := emitted b @ [Fire a], STATUS := s, PENDING_CLOSE := False,
       timers := timers b @
         (if truthy (timeout (options b))
          then [\<lparr>callback = TimeoutCallback (length (calls b)), delay = timeout (options b),
                 pending = True\<rparr>]
          else []),
       calls := calls b @
         [\<lparr>call_args = a, call_timeout = armed b, timeoutError = False, promise = Pending,
           action_pending = False\<rparr>],
       invocations := invocations b + 1\<rparr>"

text \<open>Failures reported one after the other, with nothing in between.\<close>

fun fails :: "(error \<times> jsargs) list \<Rightarrow> CircuitBreaker \<Rightarrow> CircuitBreaker option" where
  "fails [] b = Some b"
| "fails ((e, a) # xs) b = (case fail e a b of None \<Rightarrow> None | Some b' \<Rightarrow> fails xs b')"

text \<open>A breaker whose timeout is disabled and in which no timeout clock has left a
  trace: every timer is a cool-down timer, no closure holds a clock or has timed out,
  and no \<open>timeout\<close> event has been emitted.\<close>

fun is_timeout :: "event \<Rightarrow> bool" where
  "is_timeout (Timeout e a) = True"
| "is_timeout _ = False"

definition timeout_disabled :: "CircuitBreaker \<Rightarrow> bool" where
  "timeout_disabled b \<longleftrightarrow>
     timeout (options b) = JBool False
     \<and> list_all (\<lambda>t. callback t = ResetCallback) (timers b)
     \<and> list_all (\<lambda>c. call_timeout c = None \<and> \<not> timeoutError c) (calls b)
     \<and> list_all (\<lambda>ev. \<not> is_timeout ev) (emitted b)"

text \<open>The outcome of the action, as a promise state; and what a step does to the
  promises handed to callers when only the gate and the action decide them: the promise
  of an earlier call is left alone, or it takes the outcome with which the action of that
  call settles in this step; a call fired in this step is rejected with EOPENBREAKER when
  the breaker is Open, and otherwise is rejected with what the action throws or stays
  pending on the action's promise.\<close>

fun outcome :: "settlement \<Rightarrow> promise_state" where
  "outcome (Fulfils v) = Resolved v"
| "outcome (RejectsWith e) = Rejected e"

definition fired_promise :: "action_result \<Rightarrow> CircuitBreaker \<Rightarrow> promise_state" where
  "fired_promise act b =
     (if STATE b = OPEN then Rejected EOPENBREAKER
      else case act of Throws e \<Rightarrow> Rejected e | Returns \<Rightarrow> Pending)"

definition decided_by_action :: "step \<Rightarrow> CircuitBreaker \<Rightarrow> CircuitBreaker \<Rightarrow> bool" where
  "decided_by_action st b b' \<longleftrightarrow>
     (\<forall>cid < length (calls b).
        promise (calls b' ! cid) = promise (calls b ! cid)
        \<or> (\<exists>r. st = ActionSettles cid r \<and> promise (calls b' ! cid) = outcome r))
     \<and> (case st of
          DoFire a act \<Rightarrow> length (calls b') = length (calls b) + 1
             \<and> promise (calls b' ! length (calls b)) = fired_promise act b
        | _ \<Rightarrow> length (calls b') = length (calls b))"

subsection \<open>Breakers of the README's example\<close>

text \<open>The options of the README's example, and the breaker that the constructor builds
  from them.\<close>

definition readme_options :: CircuitBreakerOptions where
  "readme_options =
     \<lparr>timeout = JNum (Finite 100), resetTimeout = JNum (Finite 3000),
      maxFailures = JNum (Finite 3), debug = JBool True\<rparr>"

definition readme_breaker :: CircuitBreaker where
  "readme_breaker =
     \<lparr>options = readme_options, STATE = CLOSED, PENDING_CLOSE = False, STATUS = Status_new,
      RESET_TIMEOUT = None, timers = [], calls = [], emitted = [], invocations = 0\<rparr>"

text \<open>The same breaker after \<open>open()\<close>.\<close>

definition readme_breaker_open :: CircuitBreaker where
  "readme_breaker_open =
     \<lparr>options = readme_options, STATE = OPEN, PENDING_CLOSE = False,
      STATUS = Status_new\<lparr>store := (store Status_new)
                 (0 := new_bucket\<lparr>isCircuitBreakerOpen := FBool True\<rparr>)\<rparr>,
      RESET_TIMEOUT = Some 0,
      timers = [\<lparr>callback = ResetCallback, delay = JNum (Finite 3000), pending = True\<rparr>],
      calls = [], emitted = [Open], invocations = 0\<rparr>"

text \<open>The README's breaker with one call in flight: just after
  \<open>fire("RESOLVE")\<close> on the new breaker, and after \<open>open()\<close>, the cool-down timer
  and then \<open>fire("RESOLVE")\<close>, which finds the breaker HalfOpen.\<close>

definition readme_call :: call_closure where
  "readme_call =
     \<lparr>call_args = [''RESOLVE''], call_timeout = Some 0, timeoutError = False,
      promise = Pending, action_pending = True\<rparr>"

definition readme_breaker_call :: CircuitBreaker where
  "readme_breaker_call =
     \<lparr>options = readme_options, STATE = CLOSED, PENDING_CLOSE = False,
      STATUS = Status_new\<lparr>store := (store Status_new)(0 := new_bucket\<lparr>fires := 1\<rparr>)\<rparr>,
      RESET_TIMEOUT = None,
      timers = [\<lparr>callback = TimeoutCallback 0, delay = JNum (Finite 100), pending = True\<rparr>],
      calls = [readme_call], emitted = [Fire [''RESOLVE'']], invocations = 1\<rparr>"

definition readme_breaker_probe :: CircuitBreaker where
  "readme_breaker_probe =
     \<lparr>options = readme_options, STATE = HALF_OPEN, PENDING_CLOSE = False,
      STATUS = Status_new\<lparr>store := (store Status_new)
                 (0 := new_bucket\<lparr>fires := 1, isCircuitBreakerOpen := FBool True\<rparr>)\<rparr>,
      RESET_TIMEOUT = Some 0,
      timers = [\<lparr>callback = ResetCallback, delay = JNum (Finite 3000), pending = False\<rparr>,
                \<lparr>callback = TimeoutCallback 0, delay = JNum (Finite 100), pending = True\<rparr>],
      calls = [readme_call\<lparr>call_timeout := Some 1\<rparr>],
      emitted = [Open, HalfOpen (JNum (Finite 3000)), Fire [''RESOLVE'']], invocations = 1\<rparr>"

text \<open>The two steps of a call that the action rejects, as in the README's
  \<open>fire("REJECT")\<close>.\<close>

definition failing_call :: "nat \<Rightarrow> step list" where
  "failing_call cid =
     [DoFire [''REJECT''] Returns, ActionSettles cid (RejectsWith (ActionError ''REJECT''))]"

text \<open>The options object of \<open>new CircuitBreaker(action)\<close>: every field absent.\<close>

definition no_options :: CircuitBreakerOptions where
  "no_options =
     \<lparr>timeout = Undefined, resetTimeout = Undefined, maxFailures = Undefined,
      debug = Undefined\<rparr>"

text \<open>Options that disable the timeout, as in \<open>new CircuitBreaker(action, {timeout: false})\<close>.\<close>

definition untimed_options :: CircuitBreakerOptions where
  "untimed_options = no_options\<lparr>timeout := JBool False\<rparr>"

section \<open>Properties of the window\<close>

lemma fun_upd_const: "(\<lambda>_. c)(x := c) = (\<lambda>_. c)"
  by (rule ext) simp

lemma prime_window:
  "fold prime_step [0..<10]
     \<lparr>store = (\<lambda>_. new_bucket), fresh = 0, BUCKETS = n, TIMEOUT = t,
      WINDOW = replicate 10 None, BUCKET_INTERVAL = b\<rparr>
   = \<lparr>store = (\<lambda>_. new_bucket), fresh = 10, BUCKETS = n, TIMEOUT = t,
      WINDOW = map Some [0..<10], BUCKET_INTERVAL = b\<rparr>"
  by (simp add: prime_step_def Status_bucket_def eval_nat_numeral upt_rec fun_upd_const)

lemma Status_new_eq:
  "Status_new = \<lparr>store = (\<lambda>_. new_bucket), fresh = 10, BUCKETS = 10, TIMEOUT = 10000,
                 WINDOW = map Some [0..<10], BUCKET_INTERVAL = 1000\<rparr>"
  by (simp add: Status_new_def Let_def prime_window)

lemma refs_map_Some [simp]: "refs (map Some xs) = xs"
  by (induction xs) simp_all

lemma Status_new_ok: "status_ok Status_new"
  by (simp add: Status_new_eq status_ok_def head_bucket_def upt_conv_Cons list_all_iff)

lemma reducer_fields [simp]:
  "WINDOW (reducer acc v s) = WINDOW s" "fresh (reducer acc v s) = fresh s"
  by (simp_all add: reducer_def split: option.splits)

lemma reducer_store_other: "a \<noteq> acc \<Longrightarrow> store (reducer acc v s) a = store s a"
  by (simp add: reducer_def split: option.splits)

lemma fold_reducer_fields [simp]:
  "WINDOW (fold (reducer acc) w s) = WINDOW s" "fresh (fold (reducer acc) w s) = fresh s"
  by (induction w arbitrary: s) simp_all

lemma fold_reducer_store_other:
  "a \<noteq> acc \<Longrightarrow> store (fold (reducer acc) w s) a = store s a"
  by (induction w arbitrary: s) (simp_all add: reducer_store_other)

lemma fold_reducer_acc:
  "acc \<notin> set (refs w) \<Longrightarrow>
   store (fold (reducer acc) w s) acc = foldl add_into (store s acc) (map (store s) (refs w))"
proof (induction w arbitrary: s)
  case Nil
  then show ?case by simp
next
  case (Cons v w)
  show ?case
  proof (cases v)
    case None
    with Cons show ?thesis by (simp add: reducer_def)
  next
    case (Some a)
    with Cons.prems have ne: "a \<noteq> acc" and notin: "acc \<notin> set (refs w)" by auto
    let ?s' = "reducer acc (Some a) s"
    have same: "map (store ?s') (refs w) = map (store s) (refs w)"
      using notin by (intro map_cong refl reducer_store_other) auto
    have "store (fold (reducer acc) w ?s') acc
          = foldl add_into (store ?s' acc) (map (store ?s') (refs w))"
      by (rule Cons.IH [OF notin])
    moreover have "store ?s' acc = add_into (store s acc) (store s a)"
      by (simp add: reducer_def)
    ultimately show ?thesis using Some same by simp
  qed
qed

lemma add_into_sel [simp]:
  "failures (add_into a b) = failures a + failures b"
  "successes (add_into a b) = successes a + successes b"
  "rejects (add_into a b) = rejects a + rejects b"
  "fires (add_into a b) = fires a + fires b"
  "timeouts (add_into a b) = timeouts a + timeouts b"
  by (simp_all add: add_into_def or_zero_def)

lemma foldl_add_into_failures:
  "failures (foldl add_into b bs) = failures b + sum_list (map failures bs)"
  by (induction bs arbitrary: b) simp_all

lemma foldl_add_into_successes:
  "successes (foldl add_into b bs) = successes b + sum_list (map successes bs)"
  by (induction bs arbitrary: b) simp_all

lemma foldl_add_into_rejects:
  "rejects (foldl add_into b bs) = rejects b + sum_list (map rejects bs)"
  by (induction bs arbitrary: b) simp_all

lemma foldl_add_into_fires:
  "fires (foldl add_into b bs) = fires b + sum_list (map fires bs)"
  by (induction bs arbitrary: b) simp_all

lemma foldl_add_into_timeouts:
  "timeouts (foldl add_into b bs) = timeouts b + sum_list (map timeouts bs)"
  by (induction bs arbitrary: b) simp_all

lemma fresh_notin: "list_all (\<lambda>a. a < fresh s) (refs (WINDOW s)) \<Longrightarrow> fresh s \<notin> set (refs (WINDOW s))"
  by (auto simp: list_all_iff)

lemma bucket_fields [simp]:
  "fst (Status_bucket s) = fresh s"
  "WINDOW (snd (Status_bucket s)) = WINDOW s"
  "fresh (snd (Status_bucket s)) = Suc (fresh s)"
  "store (snd (Status_bucket s)) = (store s)(fresh s := new_bucket)"
  by (simp_all add: Status_bucket_def)

lemma snd_stats: "snd (Status_stats s) = fold (reducer (fresh s)) (WINDOW s) (snd (Status_bucket s))"
  by (simp add: Status_stats_def Let_def split_beta)

lemma fst_stats: "fst (Status_stats s) = store (snd (Status_stats s)) (fresh s)"
  by (simp add: Status_stats_def Let_def split_beta)

lemma stats_value:
  assumes "list_all (\<lambda>a. a < fresh s) (refs (WINDOW s))"
  shows "fst (Status_stats s) = foldl add_into new_bucket (window_buckets s)"
proof -
  let ?s1 = "snd (Status_bucket s)"
  have notin: "fresh s \<notin> set (refs (WINDOW s))" by (rule fresh_notin [OF assms])
  have same: "map (store ?s1) (refs (WINDOW s)) = map (store s) (refs (WINDOW s))"
    using notin by (intro map_cong refl) auto
  have "fst (Status_stats s) = store (fold (reducer (fresh s)) (WINDOW s) ?s1) (fresh s)"
    by (simp only: fst_stats snd_stats)
  also have "\<dots> = foldl add_into (store ?s1 (fresh s)) (map (store ?s1) (refs (WINDOW s)))"
    by (rule fold_reducer_acc [OF notin])
  also have "\<dots> = foldl add_into new_bucket (window_buckets s)"
    unfolding same window_buckets_def by simp
  finally show ?thesis .
qed

lemma stats_window: "WINDOW (snd (Status_stats s)) = WINDOW s"
  by (simp add: snd_stats)

lemma stats_fresh: "fresh (snd (Status_stats s)) = Suc (fresh s)"
  by (simp add: snd_stats)

lemma stats_store:
  "a < fresh s \<Longrightarrow> store (snd (Status_stats s)) a = store s a"
  by (simp add: snd_stats fold_reducer_store_other)

lemma stats_buckets:
  "list_all (\<lambda>a. a < fresh s) (refs (WINDOW s)) \<Longrightarrow> window_buckets (snd (Status_stats s)) = window_buckets s"
proof -
  assume "list_all (\<lambda>a. a < fresh s) (refs (WINDOW s))"
  then have "\<forall>a\<in>set (refs (WINDOW s)). store (snd (Status_stats s)) a = store s a"
    by (simp add: list_all_iff stats_store)
  then show ?thesis
    unfolding window_buckets_def stats_window by (simp cong: map_cong)
qed

lemma stats_ok: "status_ok s \<Longrightarrow> status_ok (snd (Status_stats s))"
  unfolding status_ok_def head_bucket_def stats_window stats_fresh
  by (auto simp: list_all_iff)

lemma nextBucket_fields:
  "WINDOW (Status_nextBucket s) = Some (fresh s) # butlast (WINDOW s)"
  "fresh (Status_nextBucket s) = Suc (fresh s)"
  "store (Status_nextBucket s) = (store s)(fresh s := new_bucket)"
  by (simp_all add: Status_nextBucket_def Status_bucket_def Let_def)

lemma refs_append [simp]: "refs (xs @ ys) = refs xs @ refs ys"
  by (induction xs rule: refs.induct) simp_all

lemma set_refs_butlast: "set (refs (butlast w)) \<subseteq> set (refs w)"
proof (cases "w = []")
  case False
  then have "w = butlast w @ [last w]" by simp
  then have "refs w = refs (butlast w) @ refs [last w]" by (metis refs_append)
  then show ?thesis by auto
qed simp

lemma distinct_refs_butlast: "distinct (refs w) \<Longrightarrow> distinct (refs (butlast w))"
proof (cases "w = []")
  case False
  assume d: "distinct (refs w)"
  from False have "w = butlast w @ [last w]" by simp
  then have "refs w = refs (butlast w) @ refs [last w]" by (metis refs_append)
  with d show ?thesis by simp
qed simp

lemma nextBucket_ok: "list_all (\<lambda>a. a < fresh s) (refs (WINDOW s)) \<Longrightarrow> distinct (refs (WINDOW s))
   \<Longrightarrow> status_ok (Status_nextBucket s)"
proof -
  assume lt: "list_all (\<lambda>a. a < fresh s) (refs (WINDOW s))" and d: "distinct (refs (WINDOW s))"
  have "\<forall>a\<in>set (refs (butlast (WINDOW s))). a < fresh s"
    using lt set_refs_butlast [of "WINDOW s"] by (auto simp: list_all_iff)
  then show ?thesis
    using distinct_refs_butlast [OF d]
    by (fastforce simp: status_ok_def head_bucket_def nextBucket_fields list_all_iff)
qed

lemma nextBucket_length: "WINDOW s \<noteq> [] \<Longrightarrow> length (WINDOW (Status_nextBucket s)) = length (WINDOW s)"
  by (simp add: nextBucket_fields)



lemma update_head_buckets:
  assumes "status_ok s"
  shows "\<exists>s' a w. WINDOW s = Some a # w \<and> update_head f s = Some s' \<and> WINDOW s' = WINDOW s \<and> fresh s' = fresh s
     \<and> store s' = (store s)(a := f (store s a))
     \<and> window_buckets s' = f (hd (window_buckets s)) # tl (window_buckets s)"
proof -
  from assms obtain a w where W: "WINDOW s = Some a # w"
    by (auto simp: status_ok_def head_bucket_def split: list.splits)
  with assms have notin: "a \<notin> set (refs w)" by (simp add: status_ok_def)
  then have "map ((store s)(a := f (store s a))) (refs w) = map (store s) (refs w)"
    by (intro map_cong refl) auto
  then show ?thesis using W
    by (simp add: update_head_def head_bucket_def window_buckets_def)
qed

lemma counter_fun:
  "counter Failures = failures" "counter Successes = successes" "counter Rejects = rejects"
  "counter Fires = fires" "counter Timeouts = timeouts"
  by (rule ext, simp)+

lemma stats_counter:
  "list_all (\<lambda>a. a < fresh s) (refs (WINDOW s)) \<Longrightarrow> counter q (fst (Status_stats s)) = tally s q"
  by (cases q)
     (simp_all add: stats_value tally_def new_bucket_def counter_fun foldl_add_into_fires
        foldl_add_into_successes foldl_add_into_failures foldl_add_into_rejects
        foldl_add_into_timeouts)

lemma stats_tally:
  "list_all (\<lambda>a. a < fresh s) (refs (WINDOW s)) \<Longrightarrow> tally (snd (Status_stats s)) = tally s"
  by (rule ext) (simp add: tally_def stats_buckets)

lemma status_ok_cong:
  "WINDOW s' = WINDOW s \<Longrightarrow> fresh s' = fresh s \<Longrightarrow> status_ok s' = status_ok s"
  by (simp add: status_ok_def head_bucket_def)

lemma status_ok_lt: "status_ok s \<Longrightarrow> list_all (\<lambda>a. a < fresh s) (refs (WINDOW s))"
  by (simp add: status_ok_def)

lemma update_head_tally:
  assumes ok: "status_ok s" and f: "\<And>x q. counter q (f x) = counter q x + d q"
  shows "\<exists>s'. update_head f s = Some s' \<and> status_ok s' \<and> (\<forall>q. tally s' q = tally s q + d q)"
proof -
  from update_head_buckets [OF ok, of f] obtain s' a w where
    W: "WINDOW s = Some a # w" and u: "update_head f s = Some s'"
    and W': "WINDOW s' = WINDOW s" and F': "fresh s' = fresh s"
    and wb: "window_buckets s' = f (hd (window_buckets s)) # tl (window_buckets s)"
    by blast
  from W have ne: "window_buckets s = hd (window_buckets s) # tl (window_buckets s)"
    by (simp add: window_buckets_def)
  have "tally s' q = tally s q + d q" for q
  proof -
    have "tally s q = counter q (hd (window_buckets s)) + sum_list (map (counter q) (tl (window_buckets s)))"
      unfolding tally_def by (subst ne) simp
    then show ?thesis by (simp add: tally_def wb f)
  qed
  moreover have "status_ok s'" using ok status_ok_cong [OF W' F'] by simp
  ultimately show ?thesis using u by blast
qed

lemma counter_bump: "counter q (bump p x) = counter q x + (if p = q then 1 else 0)"
  by (cases p; cases q) simp_all

lemma increment_Some:
  assumes "status_ok s"
  shows "\<exists>s'. Status_increment p s = Some s' \<and> status_ok s' \<and> tally s' = add1 p (tally s)"
proof -
  from update_head_tally [OF assms, of "bump p" "\<lambda>q. if p = q then 1 else 0"]
  obtain s' where "update_head (bump p) s = Some s'" "status_ok s'"
    "\<forall>q. tally s' q = tally s q + (if p = q then 1 else 0)"
    by (auto simp: counter_bump)
  then show ?thesis
    by (intro exI [of _ s']) (auto simp: Status_increment_def add1_def fun_eq_iff)
qed

lemma Status_open_Some:
  assumes "status_ok s"
  shows "\<exists>s'. Status_open s = Some s' \<and> status_ok s' \<and> tally s' = tally s"
proof -
  have "counter q (x\<lparr>isCircuitBreakerOpen := FBool True\<rparr>) = counter q x + 0" for q x
    by (cases q) simp_all
  from update_head_tally [OF assms, of "\<lambda>b. b\<lparr>isCircuitBreakerOpen := FBool True\<rparr>" "\<lambda>_. 0", OF this]
  show ?thesis by (auto simp: Status_open_def fun_eq_iff)
qed

lemma Status_close_Some:
  assumes "status_ok s"
  shows "\<exists>s'. Status_close s = Some s' \<and> status_ok s' \<and> tally s' = tally s"
proof -
  have "counter q (x\<lparr>isCircuitBreakerOpen := FBool False\<rparr>) = counter q x + 0" for q x
    by (cases q) simp_all
  from update_head_tally [OF assms, of "\<lambda>b. b\<lparr>isCircuitBreakerOpen := FBool False\<rparr>" "\<lambda>_. 0", OF this]
  show ?thesis by (auto simp: Status_close_def fun_eq_iff)
qed

lemma nextBucket_status_ok: "status_ok s \<Longrightarrow> status_ok (Status_nextBucket s)"
  by (rule nextBucket_ok) (simp_all add: status_ok_def)

section \<open>Properties of the breaker\<close>

text \<open>What each operation returns for a breaker with a well-formed window.\<close>

lemma count_Some:
  assumes "status_ok (STATUS b)"
  shows "\<exists>s. count p b = Some (b\<lparr>STATUS := s\<rparr>) \<and> status_ok s \<and> tally s = add1 p (counts b)"
  using increment_Some [OF assms, of p] by (auto simp: count_def counts_def)

lemma emit_counting:
  assumes "status_ok (STATUS b)"
  shows "\<exists>s. emit (Fire a) b = Some (b\<lparr>emitted := emitted b @ [Fire a], STATUS := s\<rparr>)
            \<and> status_ok s \<and> tally s = add1 Fires (counts b)"
    and "\<exists>s. emit (Reject e) b = Some (b\<lparr>emitted := emitted b @ [Reject e], STATUS := s\<rparr>)
            \<and> status_ok s \<and> tally s = add1 Rejects (counts b)"
    and "\<exists>s. emit (Timeout e a) b = Some (b\<lparr>emitted := emitted b @ [Timeout e a], STATUS := s\<rparr>)
            \<and> status_ok s \<and> tally s = add1 Timeouts (counts b)"
    and "\<exists>s. emit (Failure e a) b = Some (b\<lparr>emitted := emitted b @ [Failure e a], STATUS := s\<rparr>)
            \<and> status_ok s \<and> tally s = add1 Failures (counts b)"
  using count_Some [of "record_event (Fire a) b" Fires]
        count_Some [of "record_event (Reject e) b" Rejects]
        count_Some [of "record_event (Timeout e a) b" Timeouts]
        count_Some [of "record_event (Failure e a) b" Failures] assms
  by (auto simp: emit_def record_event_def counts_def)

lemma open_Some:
  assumes "status_ok (STATUS b)" "STATE b \<noteq> OPEN"
  shows "\<exists>s. open' b = Some ((tripped b)\<lparr>STATUS := s\<rparr>) \<and> status_ok s \<and> tally s = counts b"
proof -
  from Status_open_Some [OF assms(1)] obtain s where
    s: "Status_open (STATUS b) = Some s" "status_ok s" "tally s = counts b"
    by (auto simp: counts_def)
  have "open' b = Some ((tripped b)\<lparr>STATUS := s\<rparr>)"
    using s(1) assms(2)
    by (cases b) (simp add: open'_def emit_open_def on_open_def record_event_def
          startResetTimer_def setTimeout_def tripped_def)
  with s show ?thesis by blast
qed

lemma close_Some:
  assumes "status_ok (STATUS b)" "STATE b \<noteq> CLOSED"
  shows "\<exists>s. close b = Some ((restored b)\<lparr>STATUS := s\<rparr>) \<and> status_ok s \<and> tally s = counts b"
proof -
  from Status_close_Some [OF assms(1)] obtain s where
    s: "Status_close (STATUS b) = Some s" "status_ok s" "tally s = counts b"
    by (auto simp: counts_def)
  have "close b = Some ((restored b)\<lparr>STATUS := s\<rparr>)"
    using s(1) assms(2)
    by (cases b) (simp add: close_def emit_close_def on_close_def record_event_def
          clearTimeout_def restored_def split: option.splits)
  with s show ?thesis by blast
qed

lemma fail_Some:
  assumes ok: "status_ok (STATUS b)"
  shows "\<exists>s. status_ok s \<and> tally s = add1 Failures (counts b) \<and>
     fail e a b = Some
       (if trips b
        then (tripped (b\<lparr>emitted := emitted b @ [Failure e a]\<rparr>))\<lparr>STATUS := s\<rparr>
        else b\<lparr>emitted := emitted b @ [Failure e a], STATUS := s\<rparr>)"
proof -
  from emit_counting(4) [OF ok, of e a] obtain s1 where
    e1: "emit (Failure e a) b = Some (b\<lparr>emitted := emitted b @ [Failure e a], STATUS := s1\<rparr>)"
    and ok1: "status_ok s1" and t1: "tally s1 = add1 Failures (counts b)"
    by blast
  let ?st = "fst (Status_stats s1)" and ?s2 = "snd (Status_stats s1)"
  let ?b2 = "b\<lparr>emitted := emitted b @ [Failure e a], STATUS := ?s2\<rparr>"
  have f: "failures ?st = counts b Failures + 1"
    using stats_counter [OF status_ok_lt [OF ok1], of Failures] by (simp add: t1 add1_def)
  have ok2: "status_ok ?s2" by (rule stats_ok [OF ok1])
  have t2: "tally ?s2 = add1 Failures (counts b)"
    using stats_tally [OF status_ok_lt [OF ok1]] t1 by simp
  have step: "fail e a b = (if reopen_rule b then open' ?b2 else Some ?b2)"
    using f by (simp add: fail_def e1 split_beta Let_def halfOpen_def reopen_rule_def)
  show ?thesis
  proof (cases "trips b")
    case True
    then have r: "reopen_rule b" and "STATE ?b2 \<noteq> OPEN" by (simp_all add: trips_def)
    from open_Some [of ?b2, OF _ this(2)] ok2 obtain s3 where
      o: "open' ?b2 = Some ((tripped ?b2)\<lparr>STATUS := s3\<rparr>)" and ok3: "status_ok s3"
      and t3: "tally s3 = counts ?b2"
      by auto
    have eq: "(tripped ?b2)\<lparr>STATUS := s3\<rparr>
              = (tripped (b\<lparr>emitted := emitted b @ [Failure e a]\<rparr>))\<lparr>STATUS := s3\<rparr>"
      by (cases b) (simp add: tripped_def)
    have "tally s3 = add1 Failures (counts b)" using t3 t2 by (simp add: counts_def)
    moreover have "fail e a b = Some ((tripped (b\<lparr>emitted := emitted b @ [Failure e a]\<rparr>))\<lparr>STATUS := s3\<rparr>)"
      using step r o eq by simp
    ultimately show ?thesis using ok3 True by (intro exI [of _ s3]) simp
  next
    case False
    have "fail e a b = Some ?b2"
    proof (cases "reopen_rule b")
      case True
      with False have "STATE b = OPEN" by (simp add: trips_def)
      then show ?thesis using step True by (simp add: open'_def)
    next
      case False
      then show ?thesis using step by simp
    qed
    with ok2 t2 False show ?thesis by (intro exI [of _ ?s2]) simp
  qed
qed

lemma handleError_Some:
  assumes ok: "status_ok (STATUS b)"
  shows "\<exists>s. status_ok s \<and> tally s = add1 Failures (counts b) \<and>
     handleError e t a cid b = Some (reject cid e
       (if trips b
        then (tripped ((clearTimeout t b)\<lparr>emitted := emitted b @ [Failure e a]\<rparr>))\<lparr>STATUS := s\<rparr>
        else (clearTimeout t b)\<lparr>emitted := emitted b @ [Failure e a], STATUS := s\<rparr>))"
proof -
  have c: "STATUS (clearTimeout t b) = STATUS b" "counts (clearTimeout t b) = counts b"
    "emitted (clearTimeout t b) = emitted b" "trips (clearTimeout t b) = trips b"
    by (simp_all add: clearTimeout_def counts_def trips_def reopen_rule_def split: option.splits)
  from fail_Some [of "clearTimeout t b" e a] ok
  show ?thesis unfolding handleError_def c by (auto simp: c)
qed

lemma emit_Success_Some:
  assumes ok: "status_ok (STATUS b)"
  shows "\<exists>s. status_ok s \<and> tally s = add1 Successes (counts b) \<and>
     emit Success b = Some
       (if STATE b = HALF_OPEN
        then (restored (b\<lparr>emitted := emitted b @ [Success]\<rparr>))\<lparr>STATUS := s\<rparr>
        else b\<lparr>emitted := emitted b @ [Success], STATUS := s\<rparr>)"
proof -
  let ?b0 = "record_event Success b"
  from count_Some [of ?b0 Successes] ok obtain s1 where
    c1: "count Successes ?b0 = Some (?b0\<lparr>STATUS := s1\<rparr>)" and ok1: "status_ok s1"
    and t1: "tally s1 = add1 Successes (counts b)"
    by (auto simp: record_event_def counts_def)
  let ?b1 = "?b0\<lparr>STATUS := s1\<rparr>"
  have step: "emit Success b = (if STATE b = HALF_OPEN then close ?b1 else Some ?b1)"
    using c1 by (simp add: emit_def on_success_def halfOpen_def record_event_def)
  show ?thesis
  proof (cases "STATE b = HALF_OPEN")
    case True
    then have "STATE ?b1 \<noteq> CLOSED" by (simp add: record_event_def)
    from close_Some [of ?b1, OF _ this] ok1 obtain s2 where
      cl: "close ?b1 = Some ((restored ?b1)\<lparr>STATUS := s2\<rparr>)" and ok2: "status_ok s2"
      and t2: "tally s2 = counts ?b1"
      by auto
    have eq: "(restored ?b1)\<lparr>STATUS := s2\<rparr>
              = (restored (b\<lparr>emitted := emitted b @ [Success]\<rparr>))\<lparr>STATUS := s2\<rparr>"
      by (cases b) (simp add: restored_def record_event_def split: option.splits)
    have "tally s2 = add1 Successes (counts b)" using t2 t1 by (simp add: counts_def)
    have "emit Success b = Some
       (if STATE b = HALF_OPEN
        then (restored (b\<lparr>emitted := emitted b @ [Success]\<rparr>))\<lparr>STATUS := s2\<rparr>
        else b\<lparr>emitted := emitted b @ [Success], STATUS := s2\<rparr>)"
      unfolding if_P [OF True] using True step cl eq by simp
    with ok2 \<open>tally s2 = add1 Successes (counts b)\<close> show ?thesis by blast
  next
    case False
    have "emit Success b = Some
       (if STATE b = HALF_OPEN
        then (restored (b\<lparr>emitted := emitted b @ [Success]\<rparr>))\<lparr>STATUS := s1\<rparr>
        else b\<lparr>emitted := emitted b @ [Success], STATUS := s1\<rparr>)"
      using False step by (simp add: record_event_def)
    with ok1 t1 show ?thesis by blast
  qed
qed

lemma call_rejected:
  assumes ok: "status_ok (STATUS b)" and st: "STATE b = OPEN"
  shows "\<exists>s. status_ok s \<and> tally s = add1 Rejects (add1 Fires (counts b)) \<and>
     call a act b = Some (length (calls b),
       b\<lparr>emitted := emitted b @ [Fire a, Reject EOPENBREAKER], STATUS := s,
         calls := calls b @ [\<lparr>call_args = a, call_timeout = None, timeoutError = False,
           promise = Rejected EOPENBREAKER, action_pending = False\<rparr>]\<rparr>)"
proof -
  from emit_counting(1) [OF ok, of a] obtain s1 where
    e1: "emit (Fire a) b = Some (b\<lparr>emitted := emitted b @ [Fire a], STATUS := s1\<rparr>)"
    and ok1: "status_ok s1" and t1: "tally s1 = add1 Fires (counts b)"
    by blast
  let ?b1 = "b\<lparr>emitted := emitted b @ [Fire a], STATUS := s1\<rparr>"
  from emit_counting(2) [of ?b1 EOPENBREAKER] ok1 obtain s2 where
    e2: "emit (Reject EOPENBREAKER) ?b1
         = Some (?b1\<lparr>emitted := emitted ?b1 @ [Reject EOPENBREAKER], STATUS := s2\<rparr>)"
    and ok2: "status_ok s2" and t2: "tally s2 = add1 Rejects (counts ?b1)"
    by auto
  have "call a act b = Some (length (calls b),
       b\<lparr>emitted := emitted b @ [Fire a, Reject EOPENBREAKER], STATUS := s2,
         calls := calls b @ [\<lparr>call_args = a, call_timeout = None, timeoutError = False,
           promise = Rejected EOPENBREAKER, action_pending = False\<rparr>]\<rparr>)"
    using st e1 e2 by (cases b) (simp add: call_def closed_def halfOpen_def)
  moreover have "tally s2 = add1 Rejects (add1 Fires (counts b))"
    using t2 t1 by (simp add: counts_def)
  ultimately show ?thesis using ok2 by blast
qed

lemma call_admitted:
  assumes ok: "status_ok (STATUS b)" and st: "STATE b \<noteq> OPEN"
  shows "\<exists>s. status_ok s \<and> tally s = add1 Fires (counts b) \<and>
     call a Returns b = Some (length (calls b),
        update_call (length (calls b)) (\<lambda>c. c\<lparr>action_pending := True\<rparr>) (entered a s b)) \<and>
     (\<forall>e. call a (Throws e) b
        = map_option (Pair (length (calls b)))
            (handleError e (armed b) a (length (calls b)) (entered a s b)))"
proof -
  from emit_counting(1) [OF ok, of a] obtain s1 where
    e1: "emit (Fire a) b = Some (b\<lparr>emitted := emitted b @ [Fire a], STATUS := s1\<rparr>)"
    and ok1: "status_ok s1" and t1: "tally s1 = add1 Fires (counts b)"
    by blast
  from st have adm: "STATE b = CLOSED \<or> STATE b = HALF_OPEN" by (cases "STATE b") simp_all
  have "call a Returns b = Some (length (calls b),
        update_call (length (calls b)) (\<lambda>c. c\<lparr>action_pending := True\<rparr>) (entered a s1 b))"
    using adm e1
    by (cases b) (auto simp: call_def closed_def halfOpen_def setTimeout_def Let_def
          entered_def armed_def)
  moreover have "call a (Throws e) b
        = map_option (Pair (length (calls b)))
            (handleError e (armed b) a (length (calls b)) (entered a s1 b))" for e
    using adm e1
    by (cases b) (auto simp: call_def closed_def halfOpen_def setTimeout_def Let_def
          entered_def armed_def)
  ultimately show ?thesis using ok1 t1 by blast
qed

lemma update_call_fields [simp]:
  "STATE (update_call cid f b) = STATE b" "STATUS (update_call cid f b) = STATUS b"
  "options (update_call cid f b) = options b" "emitted (update_call cid f b) = emitted b"
  "timers (update_call cid f b) = timers b" "invocations (update_call cid f b) = invocations b"
  "RESET_TIMEOUT (update_call cid f b) = RESET_TIMEOUT b"
  "PENDING_CLOSE (update_call cid f b) = PENDING_CLOSE b"
  "counts (update_call cid f b) = counts b"
  "length (calls (update_call cid f b)) = length (calls b)"
  by (simp_all add: update_call_def counts_def)

lemma update_call_nth:
  "cid < length (calls b) \<Longrightarrow> calls (update_call cid f b) ! cid = f (calls b ! cid)"
  "i \<noteq> cid \<Longrightarrow> calls (update_call cid f b) ! i = calls b ! i"
  by (simp_all add: update_call_def)

lemma clearTimeout_fields [simp]:
  "STATE (clearTimeout t b) = STATE b" "STATUS (clearTimeout t b) = STATUS b"
  "options (clearTimeout t b) = options b" "emitted (clearTimeout t b) = emitted b"
  "calls (clearTimeout t b) = calls b" "invocations (clearTimeout t b) = invocations b"
  "RESET_TIMEOUT (clearTimeout t b) = RESET_TIMEOUT b"
  "PENDING_CLOSE (clearTimeout t b) = PENDING_CLOSE b"
  "counts (clearTimeout t b) = counts b"
  "length (timers (clearTimeout t b)) = length (timers b)"
  by (simp_all add: clearTimeout_def counts_def cancel_def split: option.splits)

lemma tripped_fields [simp]:
  "STATE (tripped b) = OPEN" "STATUS (tripped b) = STATUS b"
  "options (tripped b) = options b" "emitted (tripped b) = emitted b @ [Open]"
  "calls (tripped b) = calls b" "invocations (tripped b) = invocations b"
  "RESET_TIMEOUT (tripped b) = Some (length (timers b))"
  "PENDING_CLOSE (tripped b) = False"
  "timers (tripped b) = timers b @
     [\<lparr>callback = ResetCallback, delay = resetTimeout (options b), pending = True\<rparr>]"
  by (simp_all add: tripped_def)

lemma restored_fields [simp]:
  "STATE (restored b) = CLOSED" "STATUS (restored b) = STATUS b"
  "options (restored b) = options b" "emitted (restored b) = emitted b @ [Close]"
  "calls (restored b) = calls b" "invocations (restored b) = invocations b"
  "RESET_TIMEOUT (restored b) = RESET_TIMEOUT b"
  "PENDING_CLOSE (restored b) = False"
  "timers (restored b) = (case RESET_TIMEOUT b of None \<Rightarrow> timers b | Some h \<Rightarrow> cancel h (timers b))"
  by (simp_all add: restored_def)

lemma reject_fields [simp]:
  "STATE (reject cid e b) = STATE b" "STATUS (reject cid e b) = STATUS b"
  "options (reject cid e b) = options b" "emitted (reject cid e b) = emitted b"
  "timers (reject cid e b) = timers b" "invocations (reject cid e b) = invocations b"
  "RESET_TIMEOUT (reject cid e b) = RESET_TIMEOUT b"
  "PENDING_CLOSE (reject cid e b) = PENDING_CLOSE b"
  "counts (reject cid e b) = counts b"
  "length (calls (reject cid e b)) = length (calls b)"
  by (simp_all add: reject_def)

lemma resolve_fields [simp]:
  "STATE (resolve cid v b) = STATE b" "STATUS (resolve cid v b) = STATUS b"
  "options (resolve cid v b) = options b" "emitted (resolve cid v b) = emitted b"
  "timers (resolve cid v b) = timers b" "invocations (resolve cid v b) = invocations b"
  "RESET_TIMEOUT (resolve cid v b) = RESET_TIMEOUT b"
  "PENDING_CLOSE (resolve cid v b) = PENDING_CLOSE b"
  "counts (resolve cid v b) = counts b"
  "length (calls (resolve cid v b)) = length (calls b)"
  by (simp_all add: resolve_def)

lemma counts_STATUS [simp]: "counts (b\<lparr>STATUS := s\<rparr>) = tally s"
  by (simp add: counts_def)

lemma counts_other [simp]:
  "counts (b\<lparr>emitted := x\<rparr>) = counts b" "counts (b\<lparr>timers := y\<rparr>) = counts b"
  "counts (b\<lparr>calls := z\<rparr>) = counts b" "counts (tripped b) = counts b"
  "counts (restored b) = counts b"
  by (simp_all add: counts_def)

text \<open>The callbacks of the action's promise.\<close>

lemma action_settles_suppressed:
  assumes "cid < length (calls b)" "action_pending (calls b ! cid)" "timeoutError (calls b ! cid)"
  shows "action_settles cid r b = Some (update_call cid (\<lambda>c. c\<lparr>action_pending := False\<rparr>) b)"
  using assms
  by (cases r) (simp_all add: action_settles_def then_callback_def catch_callback_def
        update_call_nth Let_def)

lemma action_settles_rejects:
  assumes ok: "status_ok (STATUS b)"
    and c: "cid < length (calls b)" "action_pending (calls b ! cid)" "\<not> timeoutError (calls b ! cid)"
  shows "action_settles cid (RejectsWith e) b
         = handleError e (call_timeout (calls b ! cid)) (call_args (calls b ! cid)) cid
             (update_call cid (\<lambda>c. c\<lparr>action_pending := False\<rparr>) b)"
  using c by (simp add: action_settles_def catch_callback_def update_call_nth Let_def)

lemma action_settles_fulfils:
  assumes c: "cid < length (calls b)" "action_pending (calls b ! cid)" "\<not> timeoutError (calls b ! cid)"
  shows "action_settles cid (Fulfils v) b
         = map_option (resolve cid v)
             (emit Success (clearTimeout (call_timeout (calls b ! cid))
                (update_call cid (\<lambda>c. c\<lparr>action_pending := False\<rparr>) b)))"
  using c by (simp add: action_settles_def then_callback_def update_call_nth Let_def map_option_case
        bind_eq_None_conv split: option.splits)

lemma handleError_obs:
  assumes ok: "status_ok (STATUS b)"
  shows "\<exists>b'. handleError e t a cid b = Some b' \<and> status_ok (STATUS b')
     \<and> counts b' = add1 Failures (counts b)
     \<and> options b' = options b \<and> invocations b' = invocations b
     \<and> STATE b' = (if reopen_rule b then OPEN else STATE b)
     \<and> emitted b' = emitted b @ [Failure e a] @ (if trips b then [Open] else [])
     \<and> timers b' = timers (clearTimeout t b) @
          (if trips b
           then [\<lparr>callback = ResetCallback, delay = resetTimeout (options b), pending = True\<rparr>]
           else [])
     \<and> calls b' = calls (reject cid e b)"
proof -
  from handleError_Some [OF ok, of e t a cid] obtain s where
    s: "status_ok s" "tally s = add1 Failures (counts b)"
    and h: "handleError e t a cid b = Some (reject cid e
       (if trips b
        then (tripped ((clearTimeout t b)\<lparr>emitted := emitted b @ [Failure e a]\<rparr>))\<lparr>STATUS := s\<rparr>
        else (clearTimeout t b)\<lparr>emitted := emitted b @ [Failure e a], STATUS := s\<rparr>))"
    by blast
  show ?thesis
  proof (cases "trips b")
    case True
    then have r: "reopen_rule b" by (simp add: trips_def)
    from True h have "handleError e t a cid b = Some (reject cid e
        ((tripped ((clearTimeout t b)\<lparr>emitted := emitted b @ [Failure e a]\<rparr>))\<lparr>STATUS := s\<rparr>))"
      by simp
    then show ?thesis using s True r
      by (simp add: reject_def update_call_def)
  next
    case False
    then have st: "reopen_rule b \<longrightarrow> STATE b = OPEN" by (auto simp: trips_def)
    from False h have "handleError e t a cid b = Some (reject cid e
        ((clearTimeout t b)\<lparr>emitted := emitted b @ [Failure e a], STATUS := s\<rparr>))"
      by simp
    then show ?thesis using s False st
      by (simp add: reject_def update_call_def)
  qed
qed

lemma success_obs:
  assumes ok: "status_ok (STATUS b)"
  shows "\<exists>b'. emit Success b = Some b' \<and> status_ok (STATUS b')
     \<and> counts b' = add1 Successes (counts b)
     \<and> options b' = options b \<and> invocations b' = invocations b \<and> calls b' = calls b
     \<and> STATE b' = (if STATE b = HALF_OPEN then CLOSED else STATE b)
     \<and> emitted b' = emitted b @ [Success] @ (if STATE b = HALF_OPEN then [Close] else [])
     \<and> timers b' = (if STATE b = HALF_OPEN
          then (case RESET_TIMEOUT b of None \<Rightarrow> timers b | Some h \<Rightarrow> cancel h (timers b))
          else timers b)"
proof -
  from emit_Success_Some [OF ok] obtain s where
    s: "status_ok s" "tally s = add1 Successes (counts b)"
    and h: "emit Success b = Some
       (if STATE b = HALF_OPEN
        then (restored (b\<lparr>emitted := emitted b @ [Success]\<rparr>))\<lparr>STATUS := s\<rparr>
        else b\<lparr>emitted := emitted b @ [Success], STATUS := s\<rparr>)"
    by blast
  show ?thesis
  proof (cases "STATE b = HALF_OPEN")
    case True
    with h have "emit Success b = Some ((restored (b\<lparr>emitted := emitted b @ [Success]\<rparr>))\<lparr>STATUS := s\<rparr>)"
      by simp
    then show ?thesis using s True by (simp split: option.splits)
  next
    case False
    with h have "emit Success b = Some (b\<lparr>emitted := emitted b @ [Success], STATUS := s\<rparr>)"
      by simp
    then show ?thesis using s False by simp
  qed
qed

lemma rule_update_call [simp]:
  "reopen_rule (update_call cid f b) = reopen_rule b" "trips (update_call cid f b) = trips b"
  by (simp_all add: reopen_rule_def trips_def)

lemma rule_other [simp]:
  "reopen_rule (b\<lparr>timers := x\<rparr>) = reopen_rule b" "trips (b\<lparr>timers := x\<rparr>) = trips b"
  "reopen_rule (b\<lparr>emitted := y\<rparr>) = reopen_rule b" "trips (b\<lparr>emitted := y\<rparr>) = trips b"
  "reopen_rule (clearTimeout t b) = reopen_rule b" "trips (clearTimeout t b) = trips b"
  by (simp_all add: reopen_rule_def trips_def)

lemma promise_settle:
  "promise (settle_promise p c) = (if promise c = Pending then p else promise c)"
  "timeoutError (settle_promise p c) = timeoutError c"
  "call_timeout (settle_promise p c) = call_timeout c"
  "call_args (settle_promise p c) = call_args c"
  "action_pending (settle_promise p c) = action_pending c"
  by (simp_all add: settle_promise_def)

lemma settle_rejects_obs:
  assumes ok: "status_ok (STATUS b)"
    and c: "cid < length (calls b)" "action_pending (calls b ! cid)" "\<not> timeoutError (calls b ! cid)"
  shows "\<exists>b'. action_settles cid (RejectsWith e) b = Some b' \<and> status_ok (STATUS b')
     \<and> counts b' = add1 Failures (counts b)
     \<and> options b' = options b \<and> invocations b' = invocations b
     \<and> STATE b' = (if reopen_rule b then OPEN else STATE b)
     \<and> emitted b' = emitted b @ [Failure e (call_args (calls b ! cid))]
                       @ (if trips b then [Open] else [])
     \<and> timers b' = timers (clearTimeout (call_timeout (calls b ! cid)) b) @
          (if trips b
           then [\<lparr>callback = ResetCallback, delay = resetTimeout (options b), pending = True\<rparr>]
           else [])
     \<and> calls b' = (calls b)[cid := settle_promise (Rejected e)
                                     ((calls b ! cid)\<lparr>action_pending := False\<rparr>)]"
proof -
  let ?B = "update_call cid (\<lambda>c. c\<lparr>action_pending := False\<rparr>) b"
  have "status_ok (STATUS ?B)" using ok by simp
  from handleError_obs [OF this, of e "call_timeout (calls b ! cid)" "call_args (calls b ! cid)" cid]
  obtain b' where h: "handleError e (call_timeout (calls b ! cid)) (call_args (calls b ! cid)) cid ?B = Some b'"
    and rest: "status_ok (STATUS b')" "counts b' = add1 Failures (counts ?B)"
      "options b' = options ?B" "invocations b' = invocations ?B"
      "STATE b' = (if reopen_rule ?B then OPEN else STATE ?B)"
      "emitted b' = emitted ?B @ [Failure e (call_args (calls b ! cid))] @ (if trips ?B then [Open] else [])"
      "timers b' = timers (clearTimeout (call_timeout (calls b ! cid)) ?B) @
          (if trips ?B
           then [\<lparr>callback = ResetCallback, delay = resetTimeout (options ?B), pending = True\<rparr>]
           else [])"
      "calls b' = calls (reject cid e ?B)"
    by blast
  have t: "timers (clearTimeout (call_timeout (calls b ! cid)) ?B)
           = timers (clearTimeout (call_timeout (calls b ! cid)) b)"
    by (simp add: clearTimeout_def split: option.splits)
  have cl: "calls (reject cid e ?B) = (calls b)[cid := settle_promise (Rejected e)
                                     ((calls b ! cid)\<lparr>action_pending := False\<rparr>)]"
    using c(1) by (simp add: reject_def update_call_def)
  from action_settles_rejects [OF ok c, of e] h rest t cl show ?thesis by simp
qed

lemma settle_fulfils_obs:
  assumes ok: "status_ok (STATUS b)"
    and c: "cid < length (calls b)" "action_pending (calls b ! cid)" "\<not> timeoutError (calls b ! cid)"
  shows "\<exists>b'. action_settles cid (Fulfils v) b = Some b' \<and> status_ok (STATUS b')
     \<and> counts b' = add1 Successes (counts b)
     \<and> options b' = options b \<and> invocations b' = invocations b
     \<and> STATE b' = (if STATE b = HALF_OPEN then CLOSED else STATE b)
     \<and> emitted b' = emitted b @ [Success] @ (if STATE b = HALF_OPEN then [Close] else [])
     \<and> length (timers b') = length (timers b)
     \<and> (\<forall>h. call_timeout (calls b ! cid) = Some h \<longrightarrow> h < length (timers b)
            \<longrightarrow> \<not> pending (timers b' ! h))
     \<and> calls b' = (calls b)[cid := settle_promise (Resolved v)
                                     ((calls b ! cid)\<lparr>action_pending := False\<rparr>)]"
proof -
  let ?t = "call_timeout (calls b ! cid)"
  let ?B = "clearTimeout ?t (update_call cid (\<lambda>c. c\<lparr>action_pending := False\<rparr>) b)"
  have "status_ok (STATUS ?B)" using ok by simp
  from success_obs [OF this] obtain b1 where h: "emit Success ?B = Some b1"
    and rest: "status_ok (STATUS b1)" "counts b1 = add1 Successes (counts ?B)"
      "options b1 = options ?B" "invocations b1 = invocations ?B" "calls b1 = calls ?B"
      "STATE b1 = (if STATE ?B = HALF_OPEN then CLOSED else STATE ?B)"
      "emitted b1 = emitted ?B @ [Success] @ (if STATE ?B = HALF_OPEN then [Close] else [])"
      "timers b1 = (if STATE ?B = HALF_OPEN
          then (case RESET_TIMEOUT ?B of None \<Rightarrow> timers ?B | Some h \<Rightarrow> cancel h (timers ?B))
          else timers ?B)"
    by blast
  have len: "length (timers b1) = length (timers b)"
    using rest(8) by (simp add: cancel_def split: option.splits)
  have np: "\<not> pending (timers b1 ! h)" if "?t = Some h" "h < length (timers b)" for h
    using that rest(8)
    by (auto simp: clearTimeout_def cancel_def nth_list_update split: option.splits)
  have cl: "calls (resolve cid v b1) = (calls b)[cid := settle_promise (Resolved v)
                                     ((calls b ! cid)\<lparr>action_pending := False\<rparr>)]"
    using c(1) rest(5) by (simp add: resolve_def update_call_def)
  have "action_settles cid (Fulfils v) b = Some (resolve cid v b1)"
    using action_settles_fulfils [OF c, of v] h by simp
  then show ?thesis using rest len np cl by simp
qed

lemma add1_other: "p \<noteq> q \<Longrightarrow> add1 p t q = t q"
  by (simp add: add1_def)

lemma timer_fires_timeout:
  assumes "h < length (timers b)" "pending (timers b ! h)"
    "callback (timers b ! h) = TimeoutCallback cid" "cid < length (calls b)"
  shows "timer_fires h b =
     emit (Timeout ETIMEDOUT (call_args (calls b ! cid)))
        (update_call cid (\<lambda>c. c\<lparr>timeoutError := True\<rparr>) (b\<lparr>timers := cancel h (timers b)\<rparr>))
     \<bind> handleError ETIMEDOUT (call_timeout (calls b ! cid)) (call_args (calls b ! cid)) cid"
  using assms
  by (simp add: timer_fires_def timeout_callback_def Let_def update_call_def)

lemma timeout_obs:
  assumes ok: "status_ok (STATUS b)"
    and t: "h < length (timers b)" "pending (timers b ! h)"
      "callback (timers b ! h) = TimeoutCallback cid" "cid < length (calls b)"
  shows "\<exists>b'. timer_fires h b = Some b' \<and> status_ok (STATUS b')
     \<and> counts b' = add1 Failures (add1 Timeouts (counts b))
     \<and> options b' = options b \<and> invocations b' = invocations b
     \<and> STATE b' = (if reopen_rule b then OPEN else STATE b)
     \<and> emitted b' = emitted b @ [Timeout ETIMEDOUT (call_args (calls b ! cid)),
                                    Failure ETIMEDOUT (call_args (calls b ! cid))]
                       @ (if trips b then [Open] else [])
     \<and> \<not> pending (timers b' ! h)
     \<and> calls b' = (calls b)[cid := settle_promise (Rejected ETIMEDOUT)
                                     ((calls b ! cid)\<lparr>timeoutError := True\<rparr>)]"
proof -
  let ?a = "call_args (calls b ! cid)"
  let ?B = "update_call cid (\<lambda>c. c\<lparr>timeoutError := True\<rparr>) (b\<lparr>timers := cancel h (timers b)\<rparr>)"
  have okB: "status_ok (STATUS ?B)" using ok by simp
  from emit_counting(3) [OF okB, of ETIMEDOUT ?a] obtain s where
    e: "emit (Timeout ETIMEDOUT ?a) ?B = Some (?B\<lparr>emitted := emitted ?B @ [Timeout ETIMEDOUT ?a], STATUS := s\<rparr>)"
    and s: "status_ok s" "tally s = add1 Timeouts (counts ?B)"
    by blast
  let ?C = "?B\<lparr>emitted := emitted ?B @ [Timeout ETIMEDOUT ?a], STATUS := s\<rparr>"
  have okC: "status_ok (STATUS ?C)" using s by simp
  have cf: "counts ?C Failures = counts b Failures"
    using s(2) by (simp add: add1_other)
  have rr: "reopen_rule ?C = reopen_rule b" "trips ?C = trips b"
    using cf by (simp_all add: reopen_rule_def trips_def)
  from handleError_obs [OF okC, of ETIMEDOUT "call_timeout (calls b ! cid)" ?a cid]
  obtain b' where h: "handleError ETIMEDOUT (call_timeout (calls b ! cid)) ?a cid ?C = Some b'"
    and rest: "status_ok (STATUS b')" "counts b' = add1 Failures (counts ?C)"
      "options b' = options ?C" "invocations b' = invocations ?C"
      "STATE b' = (if reopen_rule ?C then OPEN else STATE ?C)"
      "emitted b' = emitted ?C @ [Failure ETIMEDOUT ?a] @ (if trips ?C then [Open] else [])"
      "timers b' = timers (clearTimeout (call_timeout (calls b ! cid)) ?C) @
          (if trips ?C
           then [\<lparr>callback = ResetCallback, delay = resetTimeout (options ?C), pending = True\<rparr>]
           else [])"
      "calls b' = calls (reject cid ETIMEDOUT ?C)"
    by blast
  have fire: "timer_fires h b = Some b'"
    using timer_fires_timeout [OF t] e h by simp
  have np: "\<not> pending (timers b' ! h)"
    using rest(7) t(1)
    by (auto simp: clearTimeout_def cancel_def nth_append nth_list_update split: option.splits)
  have cl: "calls b' = (calls b)[cid := settle_promise (Rejected ETIMEDOUT)
                                     ((calls b ! cid)\<lparr>timeoutError := True\<rparr>)]"
    using rest(8) t(4) by (simp add: reject_def update_call_def)
  show ?thesis
    using fire rest(1-6) np cl s(2) rr by simp
qed

text \<open>The breakers of the README's example are states of runs of the program.\<close>

lemma readme_breaker_new: "CircuitBreaker_new True readme_options = Some readme_breaker"
  by (simp add: CircuitBreaker_new_def readme_options_def readme_breaker_def js_or_def)

lemma readme_breaker_fields [simp]:
  "STATE readme_breaker = CLOSED" "STATUS readme_breaker = Status_new"
  "emitted readme_breaker = []" "timers readme_breaker = []" "calls readme_breaker = []"
  "RESET_TIMEOUT readme_breaker = None" "options readme_breaker = readme_options"
  "invocations readme_breaker = 0" "PENDING_CLOSE readme_breaker = False"
  by (simp_all add: readme_breaker_def)

lemma Status_new_fields:
  "WINDOW Status_new = map Some [0..<10]" "fresh Status_new = 10"
  "store Status_new = (\<lambda>_. new_bucket)"
  by (simp_all add: Status_new_eq)

lemma readme_breaker_open_eq: "open' readme_breaker = Some readme_breaker_open"
  by (simp add: open'_def emit_open_def on_open_def record_event_def startResetTimer_def
        setTimeout_def Status_open_def update_head_def head_bucket_def Status_new_fields
        upt_conv_Cons readme_breaker_def readme_breaker_open_def readme_options_def)

lemma readme_breaker_open_ok: "status_ok (STATUS readme_breaker_open)"
  using Status_new_ok
  by (simp add: readme_breaker_open_def status_ok_def head_bucket_def)

lemma head_Status_new: "head_bucket Status_new = Some 0"
  by (simp add: head_bucket_def Status_new_fields upt_conv_Cons)

lemma status_ok_store [simp]: "status_ok (s\<lparr>store := x\<rparr>) = status_ok s"
  by (simp add: status_ok_def head_bucket_def)

lemma readme_breaker_call_reached:
  "run [DoFire [''RESOLVE''] Returns] readme_breaker = Some readme_breaker_call"
  by (simp add: fire_def call_def emit_def record_event_def count_def Status_increment_def
        update_head_def head_Status_new Status_new_fields closed_def halfOpen_def setTimeout_def update_call_def
        Let_def readme_breaker_def readme_breaker_call_def readme_call_def readme_options_def
        new_bucket_def)

lemma readme_breaker_probe_reached:
  "run [DoOpen, TimerFires 0, DoFire [''RESOLVE''] Returns] readme_breaker
   = Some readme_breaker_probe"
  by (simp add: readme_breaker_open_eq)
     (simp add: readme_breaker_open_def timer_fires_def reset_callback_def cancel_def
        fire_def call_def emit_def record_event_def count_def Status_increment_def
        update_head_def head_bucket_def Status_new_fields upt_conv_Cons closed_def halfOpen_def
        setTimeout_def update_call_def
        Let_def readme_breaker_probe_def readme_call_def readme_options_def
        new_bucket_def)

lemma readme_breaker_probe_ok: "status_ok (STATUS readme_breaker_probe)"
  using Status_new_ok by (simp add: readme_breaker_probe_def)



lemma entered_fields [simp]:
  "STATE (entered a s b) = STATE b" "STATUS (entered a s b) = s"
  "options (entered a s b) = options b" "emitted (entered a s b) = emitted b @ [Fire a]"
  "invocations (entered a s b) = invocations b + 1"
  "RESET_TIMEOUT (entered a s b) = RESET_TIMEOUT b"
  "PENDING_CLOSE (entered a s b) = False"
  "counts (entered a s b) = tally s"
  "length (calls (entered a s b)) = length (calls b) + 1"
  "calls (entered a s b) ! length (calls b)
     = \<lparr>call_args = a, call_timeout = armed b, timeoutError = False, promise = Pending,
        action_pending = False\<rparr>"
  "i < length (calls b) \<Longrightarrow> calls (entered a s b) ! i = calls b ! i"
  by (simp_all add: entered_def counts_def nth_append)

lemma entered_pending_undo:
  "update_call (length (calls b)) (\<lambda>c. c\<lparr>action_pending := False\<rparr>)
     (update_call (length (calls b)) (\<lambda>c. c\<lparr>action_pending := True\<rparr>) (entered a s b))
   = entered a s b"
  by (cases b) (simp add: entered_def update_call_def)

lemma rule_entered:
  "tally s = add1 Fires (counts b) \<Longrightarrow> reopen_rule (entered a s b) = reopen_rule b"
  "tally s = add1 Fires (counts b) \<Longrightarrow> trips (entered a s b) = trips b"
  by (simp_all add: reopen_rule_def trips_def add1_other)

lemma throw_equals_rejection:
  assumes ok: "status_ok (STATUS b)"
  shows "call a (Throws e) b
         = call a Returns b \<bind>
             (\<lambda>(cid, b'). map_option (Pair cid) (action_settles cid (RejectsWith e) b'))"
proof (cases "STATE b = OPEN")
  case True
  from emit_counting(1) [OF ok, of a] obtain s1 where
    e1: "emit (Fire a) b = Some (b\<lparr>emitted := emitted b @ [Fire a], STATUS := s1\<rparr>)"
    by blast
  have same: "call a (Throws e) b = call a Returns b"
    using True e1 by (cases b) (simp add: call_def closed_def halfOpen_def)
  from call_rejected [OF ok True, of a Returns] same
  show ?thesis by (auto simp: action_settles_def nth_append)
next
  case False
  let ?cid = "length (calls b)"
  from call_admitted [OF ok False, of a] obtain s where s: "status_ok s"
    and r: "call a Returns b = Some (?cid,
        update_call ?cid (\<lambda>c. c\<lparr>action_pending := True\<rparr>) (entered a s b))"
    and t: "call a (Throws e) b
        = map_option (Pair ?cid) (handleError e (armed b) a ?cid (entered a s b))"
    by blast
  let ?B = "update_call ?cid (\<lambda>c. c\<lparr>action_pending := True\<rparr>) (entered a s b)"
  have okB: "status_ok (STATUS ?B)" using s by simp
  have c: "?cid < length (calls ?B)" "action_pending (calls ?B ! ?cid)"
    "\<not> timeoutError (calls ?B ! ?cid)" "call_timeout (calls ?B ! ?cid) = armed b"
    "call_args (calls ?B ! ?cid) = a"
    by (simp_all add: update_call_nth)
  from action_settles_rejects [OF okB c(1-3), of e]
  have "action_settles ?cid (RejectsWith e) ?B = handleError e (armed b) a ?cid (entered a s b)"
    by (simp only: c(4,5) entered_pending_undo)
  with r t show ?thesis by simp
qed

lemma timers_entered:
  "timers (entered a s b) = timers b @
     (case armed b of None \<Rightarrow> []
      | Some h \<Rightarrow> [\<lparr>callback = TimeoutCallback (length (calls b)), delay = timeout (options b),
                      pending = True\<rparr>])"
  by (simp add: entered_def armed_def)

lemma armed_Some: "armed b = Some h \<Longrightarrow> h = length (timers b)"
  by (simp add: armed_def split: if_splits)

lemma throw_obs:
  assumes ok: "status_ok (STATUS b)" and adm: "STATE b \<noteq> OPEN"
  shows "\<exists>b'. call a (Throws e) b = Some (length (calls b), b') \<and> status_ok (STATUS b')
     \<and> options b' = options b
     \<and> invocations b' = invocations b + 1
     \<and> emitted b' = emitted b @ [Fire a, Failure e a] @ (if trips b then [Open] else [])
     \<and> counts b' = add1 Failures (add1 Fires (counts b))
     \<and> STATE b' = (if reopen_rule b then OPEN else STATE b)
     \<and> length (calls b') = length (calls b) + 1
     \<and> (\<forall>i < length (calls b). calls b' ! i = calls b ! i)
     \<and> calls b' ! length (calls b)
         = \<lparr>call_args = a, call_timeout = armed b, timeoutError = False,
            promise = Rejected e, action_pending = False\<rparr>
     \<and> timers b' = timers (clearTimeout (armed b) (entered a (STATUS b) b)) @
          (if trips b
           then [\<lparr>callback = ResetCallback, delay = resetTimeout (options b), pending = True\<rparr>]
           else [])"
proof -
  let ?cid = "length (calls b)"
  from call_admitted [OF ok adm, of a] obtain s where s: "status_ok s"
    "tally s = add1 Fires (counts b)"
    and t: "call a (Throws e) b
        = map_option (Pair ?cid) (handleError e (armed b) a ?cid (entered a s b))"
    by blast
  have okE: "status_ok (STATUS (entered a s b))" using s by simp
  from handleError_obs [OF okE, of e "armed b" a ?cid] obtain b' where
    h: "handleError e (armed b) a ?cid (entered a s b) = Some b'"
    and r: "status_ok (STATUS b')" "counts b' = add1 Failures (counts (entered a s b))"
      "options b' = options (entered a s b)" "invocations b' = invocations (entered a s b)"
      "STATE b' = (if reopen_rule (entered a s b) then OPEN else STATE (entered a s b))"
      "emitted b' = emitted (entered a s b) @ [Failure e a]
                       @ (if trips (entered a s b) then [Open] else [])"
      "timers b' = timers (clearTimeout (armed b) (entered a s b)) @
          (if trips (entered a s b)
           then [\<lparr>callback = ResetCallback, delay = resetTimeout (options (entered a s b)),
                  pending = True\<rparr>]
           else [])"
      "calls b' = calls (reject ?cid e (entered a s b))"
    by blast
  have tm: "timers (clearTimeout (armed b) (entered a s b))
            = timers (clearTimeout (armed b) (entered a (STATUS b) b))"
    by (simp add: clearTimeout_def entered_def split: option.splits)
  have cl: "length (calls b') = length (calls b) + 1"
    "\<forall>i < length (calls b). calls b' ! i = calls b ! i"
    "calls b' ! length (calls b)
         = \<lparr>call_args = a, call_timeout = armed b, timeoutError = False,
            promise = Rejected e, action_pending = False\<rparr>"
    using r(8)
    by (simp_all add: reject_def update_call_def entered_def nth_append settle_promise_def)
  show ?thesis
    using t h r(1-7) cl s(2) tm by (simp add: rule_entered)
qed

lemma js_ge_int: "js_ge n (JNum (Finite (of_int m))) = (m \<le> int n)"
proof -
  have "(rat_of_int m \<le> of_nat n) = (rat_of_int m \<le> rat_of_int (int n))" by simp
  then show ?thesis unfolding js_ge_def by (simp only: toNumber.simps ge_jsnum.simps of_int_le_iff)
qed

lemma fail_obs:
  assumes ok: "status_ok (STATUS b)"
  shows "\<exists>b'. fail e a b = Some b' \<and> status_ok (STATUS b')
     \<and> counts b' = add1 Failures (counts b) \<and> options b' = options b
     \<and> STATE b' = (if reopen_rule b then OPEN else STATE b)
     \<and> emitted b' = emitted b @ [Failure e a] @ (if trips b then [Open] else [])"
proof -
  from fail_Some [OF ok, of e a] obtain s where
    s: "status_ok s" "tally s = add1 Failures (counts b)"
    and h: "fail e a b = Some
       (if trips b
        then (tripped (b\<lparr>emitted := emitted b @ [Failure e a]\<rparr>))\<lparr>STATUS := s\<rparr>
        else b\<lparr>emitted := emitted b @ [Failure e a], STATUS := s\<rparr>)"
    by blast
  show ?thesis
  proof (cases "trips b")
    case True
    then have "reopen_rule b" by (simp add: trips_def)
    with True h s show ?thesis by simp
  next
    case False
    then have "reopen_rule b \<longrightarrow> STATE b = OPEN" by (auto simp: trips_def)
    with False h s show ?thesis by simp
  qed
qed

lemma fails_obs:
  assumes "status_ok (STATUS b)" "STATE b \<noteq> HALF_OPEN"
    "maxFailures (options b) = JNum (Finite (of_int m))"
  shows "\<exists>b'. fails xs b = Some b' \<and> status_ok (STATUS b') \<and> options b' = options b
     \<and> counts b' Failures = counts b Failures + length xs
     \<and> STATE b' = (if STATE b = OPEN \<or> (xs \<noteq> [] \<and> m \<le> int (counts b Failures) + int (length xs))
                    then OPEN else CLOSED)"
  using assms
proof (induction xs arbitrary: b)
  case Nil
  then show ?case by (cases "STATE b") simp_all
next
  case (Cons x xs)
  obtain e a where x: "x = (e, a)" by (cases x)
  from fail_obs [OF Cons.prems(1), of e a] obtain b1 where
    f: "fail e a b = Some b1" and ok1: "status_ok (STATUS b1)"
    and c1: "counts b1 = add1 Failures (counts b)" and o1: "options b1 = options b"
    and s1: "STATE b1 = (if reopen_rule b then OPEN else STATE b)"
    by blast
  have rr: "reopen_rule b = (m \<le> int (counts b Failures) + 1)"
    using Cons.prems(2,3) by (auto simp: reopen_rule_def js_ge_int)
  have nh: "STATE b1 \<noteq> HALF_OPEN" using s1 Cons.prems(2) by simp
  have cf: "counts b1 Failures = counts b Failures + 1" using c1 by (simp add: add1_def)
  from Cons.IH [OF ok1 nh] o1 Cons.prems(3) obtain b' where
    r: "fails xs b1 = Some b'" "status_ok (STATUS b')" "options b' = options b1"
      "counts b' Failures = counts b1 Failures + length xs"
      "STATE b' = (if STATE b1 = OPEN \<or> (xs \<noteq> [] \<and> m \<le> int (counts b1 Failures) + int (length xs))
                    then OPEN else CLOSED)"
    by auto
  have st: "STATE b' = (if STATE b = OPEN \<or> m \<le> int (counts b Failures) + int (length (x # xs))
                    then OPEN else CLOSED)"
    using r(5) s1 rr cf Cons.prems(2) by (cases "STATE b"; cases "xs = []") auto
  show ?case
    using f r(1-4) o1 cf st by (simp add: x)
qed

lemma run_append: "run (xs @ ys) b = run xs b \<bind> run ys"
  by (induction xs arbitrary: b) (simp_all split: option.splits)

lemma failing_call_obs:
  assumes ok: "status_ok (STATUS b)" and adm: "STATE b \<noteq> OPEN"
  shows "\<exists>b'. run (failing_call (length (calls b))) b = Some b' \<and> status_ok (STATUS b')
     \<and> options b' = options b \<and> counts b' Failures = counts b Failures + 1
     \<and> STATE b' = (if reopen_rule b then OPEN else STATE b)
     \<and> length (calls b') = length (calls b) + 1"
proof -
  let ?a = "[''REJECT'']" and ?e = "ActionError ''REJECT''"
  from call_admitted [OF ok adm, of ?a] obtain B where
    r: "call ?a Returns b = Some (length (calls b), B)"
    by blast
  from throw_obs [OF ok adm, of ?a ?e] obtain b' where
    t: "call ?a (Throws ?e) b = Some (length (calls b), b')"
    and o: "status_ok (STATUS b')" "options b' = options b"
      "counts b' = add1 Failures (add1 Fires (counts b))"
      "STATE b' = (if reopen_rule b then OPEN else STATE b)"
      "length (calls b') = length (calls b) + 1"
    by blast
  from throw_equals_rejection [OF ok, of ?a ?e] r t
  have "action_settles (length (calls b)) (RejectsWith ?e) B = Some b'"
    by (auto simp: map_option_case split: option.splits)
  then have "run (failing_call (length (calls b))) b = Some b'"
    using r by (simp add: failing_call_def fire_def)
  then show ?thesis using o by (simp add: add1_def)
qed

lemma close_obs:
  assumes ok: "status_ok (STATUS b)" and st: "STATE b \<noteq> CLOSED"
  shows "\<exists>b'. close b = Some b' \<and> status_ok (STATUS b') \<and> options b' = options b
     \<and> counts b' = counts b \<and> STATE b' = CLOSED \<and> calls b' = calls b
     \<and> emitted b' = emitted b @ [Close]"
  using close_Some [OF ok st] by auto

text \<open>A breaker with the timeout disabled stays so.\<close>

lemma callback_cancel: "map callback (cancel h ts) = map callback ts"
  by (simp add: cancel_def map_update list_update_same_conv)

lemma list_all_callback_cancel:
  "list_all (\<lambda>t. callback t = ResetCallback) (cancel h ts)
   = list_all (\<lambda>t. callback t = ResetCallback) ts"
proof -
  have *: "list_all (\<lambda>t. callback t = ResetCallback) xs = list_all (\<lambda>c. c = ResetCallback) (map callback xs)"
    for xs by (simp add: list_all_iff)
  show ?thesis by (simp only: * callback_cancel)
qed

lemma td_STATUS [simp]: "timeout_disabled (b\<lparr>STATUS := s\<rparr>) = timeout_disabled b"
  by (simp add: timeout_disabled_def)

lemma td_emitted [simp]:
  "\<not> is_timeout ev \<Longrightarrow> timeout_disabled (b\<lparr>emitted := emitted b @ [ev]\<rparr>) = timeout_disabled b"
  by (simp add: timeout_disabled_def)

lemma td_tripped [simp]: "timeout_disabled (tripped b) = timeout_disabled b"
  by (simp add: timeout_disabled_def tripped_def)

lemma td_restored [simp]: "timeout_disabled (restored b) = timeout_disabled b"
  by (simp add: timeout_disabled_def restored_def list_all_callback_cancel split: option.splits)

lemma td_clearTimeout [simp]: "timeout_disabled (clearTimeout t b) = timeout_disabled b"
  by (simp add: timeout_disabled_def clearTimeout_def list_all_callback_cancel split: option.splits)

lemma td_timers_cancel [simp]:
  "timeout_disabled (b\<lparr>timers := cancel h (timers b)\<rparr>) = timeout_disabled b"
  by (simp add: timeout_disabled_def list_all_callback_cancel)

lemma td_state [simp]:
  "timeout_disabled (b\<lparr>STATE := x, PENDING_CLOSE := y\<rparr>) = timeout_disabled b"
  by (simp add: timeout_disabled_def)

lemma td_update_call:
  assumes "\<And>c. call_timeout (f c) = call_timeout c" "\<And>c. timeoutError (f c) = timeoutError c"
  shows "timeout_disabled (update_call cid f b) = timeout_disabled b"
proof -
  have "list_all (\<lambda>c. call_timeout c = None \<and> \<not> timeoutError c) ((calls b)[cid := f (calls b ! cid)])
        = list_all (\<lambda>c. call_timeout c = None \<and> \<not> timeoutError c) (calls b)"
    if "cid < length (calls b)"
    using that assms by (auto simp: list_all_length nth_list_update)
  then show ?thesis by (simp add: timeout_disabled_def update_call_def)
qed

lemma td_reject [simp]: "timeout_disabled (reject cid e b) = timeout_disabled b"
  unfolding reject_def by (rule td_update_call) (simp_all add: promise_settle)

lemma td_resolve [simp]: "timeout_disabled (resolve cid v b) = timeout_disabled b"
  unfolding resolve_def by (rule td_update_call) (simp_all add: promise_settle)

lemma td_pending [simp]:
  "timeout_disabled (update_call cid (\<lambda>c. c\<lparr>action_pending := x\<rparr>) b) = timeout_disabled b"
  by (rule td_update_call) simp_all

lemma td_armed: "timeout_disabled b \<Longrightarrow> armed b = None"
  by (simp add: timeout_disabled_def armed_def)

lemma td_entered: "timeout_disabled b \<Longrightarrow> timeout_disabled (entered a s b)"
  by (simp add: timeout_disabled_def entered_def armed_def)

lemma settle_fulfils_callbacks:
  assumes ok: "status_ok (STATUS b)"
    and c: "cid < length (calls b)" "action_pending (calls b ! cid)" "\<not> timeoutError (calls b ! cid)"
    and s: "action_settles cid (Fulfils v) b = Some b'"
  shows "map callback (timers b') = map callback (timers b)"
proof -
  let ?B = "clearTimeout (call_timeout (calls b ! cid))
              (update_call cid (\<lambda>c. c\<lparr>action_pending := False\<rparr>) b)"
  have "status_ok (STATUS ?B)" using ok by simp
  from success_obs [OF this] obtain b1 where h: "emit Success ?B = Some b1"
    and t: "timers b1 = (if STATE ?B = HALF_OPEN
          then (case RESET_TIMEOUT ?B of None \<Rightarrow> timers ?B | Some h \<Rightarrow> cancel h (timers ?B))
          else timers ?B)"
    by blast
  have "map callback (timers b1) = map callback (timers b)"
    unfolding t by (simp add: callback_cancel clearTimeout_def split: option.splits)
  moreover have "b' = resolve cid v b1"
    using action_settles_fulfils [OF c, of v] h s by simp
  ultimately show ?thesis by simp
qed

lemma reset_obs:
  assumes "h < length (timers b)" "pending (timers b ! h)" "callback (timers b ! h) = ResetCallback"
  shows "timer_fires h b
         = Some (b\<lparr>timers := cancel h (timers b), STATE := HALF_OPEN, PENDING_CLOSE := True,
                   emitted := emitted b @ [HalfOpen (resetTimeout (options b))]\<rparr>)"
  using assms
  by (cases b) (simp add: timer_fires_def reset_callback_def emit_def record_event_def)

lemma resets_map:
  "list_all (\<lambda>t. callback t = ResetCallback) xs
   = list_all (\<lambda>c. c = ResetCallback) (map callback xs)"
  by (simp add: list_all_iff)

lemma sum_refs_butlast:
  "sum_list (map f (refs (butlast w))) \<le> (sum_list (map f (refs w)) :: nat)"
proof (cases "w = []")
  case False
  then have "w = butlast w @ [last w]" by simp
  then have "refs w = refs (butlast w) @ refs [last w]" by (metis refs_append)
  then show ?thesis by simp
qed simp

lemma nextBucket_tally_le:
  assumes "status_ok s"
  shows "tally (Status_nextBucket s) q \<le> tally s q"
proof -
  from assms have lt: "\<forall>a\<in>set (refs (WINDOW s)). a < fresh s"
    by (simp add: status_ok_def list_all_iff)
  have "\<forall>a\<in>set (refs (butlast (WINDOW s))). a \<noteq> fresh s"
    using lt set_refs_butlast [of "WINDOW s"] by auto
  then have M: "map ((store s)(fresh s := new_bucket)) (refs (butlast (WINDOW s)))
             = map (store s) (refs (butlast (WINDOW s)))"
    by (intro map_cong refl) auto
  have wb: "window_buckets (Status_nextBucket s)
            = new_bucket # map (store s) (refs (butlast (WINDOW s)))"
    unfolding window_buckets_def nextBucket_fields refs.simps list.map M by simp
  have z: "counter q new_bucket = 0" by (cases q) (simp_all add: new_bucket_def)
  have "tally (Status_nextBucket s) q
             = sum_list (map (counter q \<circ> store s) (refs (butlast (WINDOW s))))"
    unfolding tally_def wb by (simp add: z)
  also have "\<dots> \<le> sum_list (map (counter q \<circ> store s) (refs (WINDOW s)))"
    by (rule sum_refs_butlast)
  finally show ?thesis by (simp add: tally_def window_buckets_def)
qed

lemma exec_disabled:
  assumes ok: "status_ok (STATUS b)" and td: "timeout_disabled b"
  shows "\<exists>b'. exec st b = Some b' \<and> status_ok (STATUS b') \<and> timeout_disabled b'
           \<and> decided_by_action st b b' \<and> counts b' Timeouts \<le> counts b Timeouts"
proof -
  from td have o: "timeout (options b) = JBool False"
    and T: "list_all (\<lambda>t. callback t = ResetCallback) (timers b)"
    and C: "list_all (\<lambda>c. call_timeout c = None \<and> \<not> timeoutError c) (calls b)"
    and E: "list_all (\<lambda>ev. \<not> is_timeout ev) (emitted b)"
    by (simp_all add: timeout_disabled_def)
  have ar: "armed b = None" by (rule td_armed [OF td])
  show ?thesis
  proof (cases st)
    case (DoFire a act)
    show ?thesis
    proof (cases "STATE b = OPEN")
      case True
      from call_rejected [OF ok True, of a act] obtain s where "status_ok s"
        "tally s = add1 Rejects (add1 Fires (counts b))"
        "call a act b = Some (length (calls b),
           b\<lparr>emitted := emitted b @ [Fire a, Reject EOPENBREAKER], STATUS := s,
             calls := calls b @ [\<lparr>call_args = a, call_timeout = None, timeoutError = False,
               promise = Rejected EOPENBREAKER, action_pending = False\<rparr>]\<rparr>)"
        by blast
      then show ?thesis using True o T C E DoFire
        by (simp add: fire_def timeout_disabled_def decided_by_action_def fired_promise_def
              nth_append add1_def)
    next
      case False
      show ?thesis
      proof (cases act)
        case Returns
        from call_admitted [OF ok False, of a] obtain s where s: "status_ok s"
          and ts: "tally s = add1 Fires (counts b)"
          and r: "call a Returns b = Some (length (calls b),
             update_call (length (calls b)) (\<lambda>c. c\<lparr>action_pending := True\<rparr>) (entered a s b))"
          by blast
        let ?b' = "update_call (length (calls b)) (\<lambda>c. c\<lparr>action_pending := True\<rparr>) (entered a s b)"
        have "timeout_disabled ?b'" using td by (simp add: td_entered)
        moreover have "decided_by_action st b ?b'"
          using False DoFire Returns
          by (simp add: decided_by_action_def fired_promise_def update_call_nth)
        ultimately show ?thesis using r s ts DoFire Returns by (simp add: fire_def add1_def)
      next
        case (Throws e)
        from throw_obs [OF ok False, of a e] obtain b' where
          c: "call a (Throws e) b = Some (length (calls b), b')"
          and cn: "counts b' = add1 Failures (add1 Fires (counts b))"
          and r: "status_ok (STATUS b')" "options b' = options b"
            "emitted b' = emitted b @ [Fire a, Failure e a] @ (if trips b then [Open] else [])"
            "length (calls b') = length (calls b) + 1"
            "\<forall>i < length (calls b). calls b' ! i = calls b ! i"
            "calls b' ! length (calls b)
               = \<lparr>call_args = a, call_timeout = armed b, timeoutError = False,
                  promise = Rejected e, action_pending = False\<rparr>"
            "timers b' = timers (clearTimeout (armed b) (entered a (STATUS b) b)) @
              (if trips b
               then [\<lparr>callback = ResetCallback, delay = resetTimeout (options b), pending = True\<rparr>]
               else [])"
          by blast
        have t': "list_all (\<lambda>t. callback t = ResetCallback) (timers b')"
          using r(7) T by (simp add: ar clearTimeout_def timers_entered)
        have c': "list_all (\<lambda>c. call_timeout c = None \<and> \<not> timeoutError c) (calls b')"
          unfolding list_all_length
        proof (intro allI impI)
          fix i assume "i < length (calls b')"
          then consider "i < length (calls b)" | "i = length (calls b)" using r(4) by linarith
          then show "call_timeout (calls b' ! i) = None \<and> \<not> timeoutError (calls b' ! i)"
          proof cases
            case 1
            then show ?thesis using r(5) C by (simp add: list_all_length)
          next
            case 2
            then show ?thesis using r(6) ar by simp
          qed
        qed
        have e': "list_all (\<lambda>ev. \<not> is_timeout ev) (emitted b')"
          using r(3) E by simp
        have "timeout_disabled b'"
          using o r(2) t' c' e' by (simp add: timeout_disabled_def)
        moreover have "decided_by_action st b b'"
          using False DoFire Throws r(4,5,6)
          by (simp add: decided_by_action_def fired_promise_def)
        ultimately show ?thesis using c r(1) cn DoFire Throws by (simp add: fire_def add1_def)
      qed
    qed
  next
    case DoClose
    show ?thesis
    proof (cases "STATE b = CLOSED")
      case True
      then show ?thesis using ok td DoClose by (simp add: close_def decided_by_action_def)
    next
      case False
      from close_Some [OF ok False] obtain s where
        "close b = Some ((restored b)\<lparr>STATUS := s\<rparr>)" "status_ok s" "tally s = counts b"
        by blast
      then show ?thesis using td DoClose by (simp add: decided_by_action_def)
    qed
  next
    case DoOpen
    show ?thesis
    proof (cases "STATE b = OPEN")
      case True
      then show ?thesis using ok td DoOpen by (simp add: open'_def decided_by_action_def)
    next
      case False
      from open_Some [OF ok False] obtain s where
        "open' b = Some ((tripped b)\<lparr>STATUS := s\<rparr>)" "status_ok s" "tally s = counts b"
        by blast
      then show ?thesis using td DoOpen by (simp add: decided_by_action_def)
    qed
  next
    case (TimerFires h)
    show ?thesis
    proof (cases "h < length (timers b) \<and> pending (timers b ! h)")
      case True
      then have "callback (timers b ! h) = ResetCallback" using T by (simp add: list_all_length)
      from reset_obs [OF _ _ this] True
      have "timer_fires h b
         = Some (b\<lparr>timers := cancel h (timers b), STATE := HALF_OPEN, PENDING_CLOSE := True,
                   emitted := emitted b @ [HalfOpen (resetTimeout (options b))]\<rparr>)"
        by simp
      then show ?thesis using ok o T C E TimerFires
        by (simp add: timeout_disabled_def decided_by_action_def list_all_callback_cancel
              counts_def)
    next
      case False
      then have "timer_fires h b = Some b" by (auto simp: timer_fires_def)
      then show ?thesis using ok td TimerFires by (simp add: decided_by_action_def)
    qed
  next
    case (ActionSettles cid r)
    show ?thesis
    proof (cases "cid < length (calls b) \<and> action_pending (calls b ! cid)")
      case False
      then have "action_settles cid r b = Some b" by (auto simp: action_settles_def)
      then show ?thesis using ok td ActionSettles by (simp add: decided_by_action_def)
    next
      case True
      then have c: "cid < length (calls b)" "action_pending (calls b ! cid)" by simp_all
      have nt: "\<not> timeoutError (calls b ! cid)" "call_timeout (calls b ! cid) = None"
        using C c(1) by (simp_all add: list_all_length)
      have upd: "list_all (\<lambda>c. call_timeout c = None \<and> \<not> timeoutError c)
                   ((calls b)[cid := settle_promise p ((calls b ! cid)\<lparr>action_pending := False\<rparr>)])"
        for p
        using C nt c(1) by (auto simp: list_all_length nth_list_update promise_settle)
      have dec: "decided_by_action st b b'"
        if "calls b' = (calls b)[cid := settle_promise (outcome r)
                                     ((calls b ! cid)\<lparr>action_pending := False\<rparr>)]" for b'
        using that ActionSettles c(1)
        by (auto simp: decided_by_action_def nth_list_update promise_settle)
      show ?thesis
      proof (cases r)
        case (Fulfils v)
        from settle_fulfils_obs [OF ok c nt(1), of v] obtain b' where
          s: "action_settles cid (Fulfils v) b = Some b'"
          and cn: "counts b' = add1 Successes (counts b)"
          and f: "status_ok (STATUS b')" "options b' = options b"
            "emitted b' = emitted b @ [Success] @ (if STATE b = HALF_OPEN then [Close] else [])"
            "calls b' = (calls b)[cid := settle_promise (Resolved v)
                                     ((calls b ! cid)\<lparr>action_pending := False\<rparr>)]"
          by blast
        have "map callback (timers b') = map callback (timers b)"
          by (rule settle_fulfils_callbacks [OF ok c nt(1) s])
        then have t': "list_all (\<lambda>t. callback t = ResetCallback) (timers b')"
          using T by (simp only: resets_map)
        have "timeout_disabled b'"
          using o f(2,3,4) t' upd E by (simp add: timeout_disabled_def)
        moreover have "decided_by_action st b b'" using dec [of b'] f(4) Fulfils by simp
        ultimately show ?thesis using s f(1) cn ActionSettles Fulfils by (simp add: add1_def)
      next
        case (RejectsWith e)
        from settle_rejects_obs [OF ok c nt(1), of e] obtain b' where
          s: "action_settles cid (RejectsWith e) b = Some b'"
          and cn: "counts b' = add1 Failures (counts b)"
          and f: "status_ok (STATUS b')" "options b' = options b"
            "emitted b' = emitted b @ [Failure e (call_args (calls b ! cid))]
                       @ (if trips b then [Open] else [])"
            "timers b' = timers (clearTimeout (call_timeout (calls b ! cid)) b) @
              (if trips b
               then [\<lparr>callback = ResetCallback, delay = resetTimeout (options b), pending = True\<rparr>]
               else [])"
            "calls b' = (calls b)[cid := settle_promise (Rejected e)
                                     ((calls b ! cid)\<lparr>action_pending := False\<rparr>)]"
          by blast
        have t': "list_all (\<lambda>t. callback t = ResetCallback) (timers b')"
          using f(4) T by (simp add: nt clearTimeout_def)
        have "timeout_disabled b'"
          using o f(2,3,5) t' upd E by (simp add: timeout_disabled_def)
        moreover have "decided_by_action st b b'" using dec [of b'] f(5) RejectsWith by simp
        ultimately show ?thesis using s f(1) cn ActionSettles RejectsWith by (simp add: add1_def)
      qed
    qed
  next
    case Rotate
    have "status_ok (STATUS (rotate b))"
      using nextBucket_status_ok [OF ok] by (simp add: rotate_def)
    moreover have "timeout_disabled (rotate b)" using td by (simp add: rotate_def)
    moreover have "counts (rotate b) Timeouts \<le> counts b Timeouts"
      using nextBucket_tally_le [OF ok] by (simp add: rotate_def counts_def)
    ultimately show ?thesis using Rotate by (simp add: decided_by_action_def rotate_def)
  qed
qed

lemma run_disabled:
  assumes "status_ok (STATUS b)" "timeout_disabled b"
  shows "\<exists>b'. run steps b = Some b' \<and> status_ok (STATUS b') \<and> timeout_disabled b'
           \<and> counts b' Timeouts \<le> counts b Timeouts"
  using assms
proof (induction steps arbitrary: b)
  case Nil
  then show ?case by simp
next
  case (Cons st steps)
  from exec_disabled [OF Cons.prems, of st] obtain b1 where
    1: "exec st b = Some b1" "status_ok (STATUS b1)" "timeout_disabled b1"
      "counts b1 Timeouts \<le> counts b Timeouts"
    by blast
  from Cons.IH [OF 1(2,3)] obtain b' where
    "run steps b1 = Some b'" "status_ok (STATUS b')" "timeout_disabled b'"
    "counts b' Timeouts \<le> counts b1 Timeouts"
    by blast
  with 1 show ?case by auto
qed

lemma tally_Status_new: "tally Status_new q = 0"
  by (cases q)
     (simp_all add: tally_def window_buckets_def Status_new_fields upt_conv_Cons new_bucket_def)

lemma new_disabled:
  assumes "CircuitBreaker_new True opts = Some b0" "timeout opts = JBool False"
  shows "status_ok (STATUS b0)" "timeout_disabled b0" "counts b0 Timeouts = 0"
    "STATE b0 = CLOSED" "calls b0 = []" "timers b0 = []" "emitted b0 = []"
    "invocations b0 = 0"
  using assms Status_new_ok
  by (auto simp: CircuitBreaker_new_def timeout_disabled_def counts_def tally_Status_new)

text \<open>Every step of a breaker with a well-formed window succeeds and keeps the window
  well formed.\<close>

lemma exec_ok:
  assumes ok: "status_ok (STATUS b)"
  shows "\<exists>b'. exec st b = Some b' \<and> status_ok (STATUS b')"
proof (cases st)
  case (DoFire a act)
  show ?thesis
  proof (cases "STATE b = OPEN")
    case True
    from call_rejected [OF ok True, of a act] DoFire show ?thesis by (auto simp: fire_def)
  next
    case False
    show ?thesis
    proof (cases act)
      case Returns
      from call_admitted [OF ok False, of a] DoFire Returns show ?thesis
        by (auto simp: fire_def)
    next
      case (Throws e)
      from throw_obs [OF ok False, of a e] DoFire Throws show ?thesis
        by (auto simp: fire_def)
    qed
  qed
next
  case DoClose
  show ?thesis
  proof (cases "STATE b = CLOSED")
    case True
    with ok DoClose show ?thesis by (simp add: close_def)
  next
    case False
    from close_Some [OF ok False] DoClose show ?thesis by auto
  qed
next
  case DoOpen
  show ?thesis
  proof (cases "STATE b = OPEN")
    case True
    with ok DoOpen show ?thesis by (simp add: open'_def)
  next
    case False
    from open_Some [OF ok False] DoOpen show ?thesis by auto
  qed
next
  case (TimerFires h)
  show ?thesis
  proof (cases "h < length (timers b) \<and> pending (timers b ! h)")
    case False
    then have "timer_fires h b = Some b" by (auto simp: timer_fires_def)
    with ok TimerFires show ?thesis by simp
  next
    case True
    show ?thesis
    proof (cases "callback (timers b ! h)")
      case ResetCallback
      from reset_obs [OF _ _ this] True ok TimerFires show ?thesis by simp
    next
      case (TimeoutCallback cid)
      show ?thesis
      proof (cases "cid < length (calls b)")
        case c: True
        from timeout_obs [OF ok _ _ TimeoutCallback c] True TimerFires show ?thesis by auto
      next
        case False
        then have "timer_fires h b = Some (b\<lparr>timers := cancel h (timers b)\<rparr>)"
          using True TimeoutCallback by (simp add: timer_fires_def timeout_callback_def)
        with ok TimerFires show ?thesis by simp
      qed
    qed
  qed
next
  case (ActionSettles cid r)
  show ?thesis
  proof (cases "cid < length (calls b) \<and> action_pending (calls b ! cid)")
    case False
    then have "action_settles cid r b = Some b" by (auto simp: action_settles_def)
    with ok ActionSettles show ?thesis by simp
  next
    case True
    then have c: "cid < length (calls b)" "action_pending (calls b ! cid)" by simp_all
    show ?thesis
    proof (cases "timeoutError (calls b ! cid)")
      case True
      from action_settles_suppressed [OF c True, of r] ok ActionSettles show ?thesis by simp
    next
      case False
      show ?thesis
      proof (cases r)
        case (Fulfils v)
        from settle_fulfils_obs [OF ok c False, of v] ActionSettles Fulfils show ?thesis by auto
      next
        case (RejectsWith e)
        from settle_rejects_obs [OF ok c False, of e] ActionSettles RejectsWith show ?thesis
          by auto
      qed
    qed
  qed
next
  case Rotate
  from nextBucket_status_ok [OF ok] Rotate show ?thesis by (simp add: rotate_def)
qed

text \<open>No run of a breaker that the constructor has built ends in a TypeError of the
  status object: the value \<open>None\<close> of the model is never reached.\<close>

lemma run_ok:
  assumes "status_ok (STATUS b)"
  shows "\<exists>b'. run steps b = Some b' \<and> status_ok (STATUS b')"
  using assms
proof (induction steps arbitrary: b)
  case Nil
  then show ?case by simp
next
  case (Cons st steps)
  from exec_ok [OF Cons.prems, of st] obtain b1 where
    "exec st b = Some b1" "status_ok (STATUS b1)" by blast
  with Cons.IH [of b1] show ?case by auto
qed

lemma run_never_throws:
  assumes "CircuitBreaker_new True opts = Some b0"
  shows "\<exists>b. run steps b0 = Some b \<and> status_ok (STATUS b)"
proof -
  from assms have "STATUS b0 = Status_new" by (auto simp: CircuitBreaker_new_def)
  then have "status_ok (STATUS b0)" using Status_new_ok by simp
  then show ?thesis by (rule run_ok)
qed

section \<open>The claims\<close>

subsection \<open>C1: a Closed breaker opens at the threshold\<close>

text \<open>
  Claim C1, as stated, fails: the README's breaker (\<open>maxFailures: 3\<close>) is Closed again
  after three rejected calls and \<open>close()\<close>, the three failures are still in the window,
  and one more rejected call, with no rotation in between, opens it.
\<close>

theorem earlier_failures_count_counterexample:
  "maxFailures (options readme_breaker) = JNum (Finite 3)
   \<and> map_option STATE
        (run (failing_call 0 @ failing_call 1 @ failing_call 2 @ [DoClose]) readme_breaker)
       = Some CLOSED
   \<and> map_option STATE
        (run ((failing_call 0 @ failing_call 1 @ failing_call 2 @ [DoClose]) @ failing_call 3)
           readme_breaker)
       = Some OPEN"
proof -
  have mf: "maxFailures (options readme_breaker) = JNum (Finite (of_int 3))"
    by (simp add: readme_options_def)
  have rr: "reopen_rule b = (3 \<le> int (counts b Failures) + 1 \<or> STATE b = HALF_OPEN)"
    if "options b = options readme_breaker" for b
    using that mf js_ge_int [of "counts b Failures + 1" 3] by (simp add: reopen_rule_def)
  have ok0: "status_ok (STATUS readme_breaker)" using Status_new_ok by simp
  have f0: "counts readme_breaker Failures = 0"
    by (simp add: counts_def tally_def window_buckets_def
          Status_new_fields upt_conv_Cons new_bucket_def)
  from failing_call_obs [of readme_breaker] ok0 obtain b1 where
    1: "run (failing_call 0) readme_breaker = Some b1" "status_ok (STATUS b1)"
      "options b1 = options readme_breaker" "counts b1 Failures = 1" "STATE b1 = CLOSED"
      "length (calls b1) = 1"
    by (auto simp: f0 rr)
  from failing_call_obs [of b1] 1 obtain b2 where
    2: "run (failing_call 1) b1 = Some b2" "status_ok (STATUS b2)"
      "options b2 = options readme_breaker" "counts b2 Failures = 2" "STATE b2 = CLOSED"
      "length (calls b2) = 2"
    by (auto simp: rr)
  from failing_call_obs [of b2] 2 obtain b3 where
    3: "run (failing_call 2) b2 = Some b3" "status_ok (STATUS b3)"
      "options b3 = options readme_breaker" "counts b3 Failures = 3" "STATE b3 = OPEN"
      "length (calls b3) = 3"
    by (auto simp: rr)
  from close_obs [of b3] 3 obtain b4 where
    4: "close b3 = Some b4" "status_ok (STATUS b4)"
      "options b4 = options readme_breaker" "counts b4 Failures = 3" "STATE b4 = CLOSED"
      "length (calls b4) = 3"
    by auto
  from failing_call_obs [of b4] 4 obtain b5 where
    5: "run (failing_call 3) b4 = Some b5" "STATE b5 = OPEN"
    by (auto simp: rr)
  have A: "run (failing_call 0 @ failing_call 1 @ failing_call 2 @ [DoClose]) readme_breaker
           = Some b4"
    using 1(1) 2(1) 3(1) 4(1) by (simp add: run_append)
  then have B: "run ((failing_call 0 @ failing_call 1 @ failing_call 2 @ [DoClose]) @ failing_call 3)
           readme_breaker = Some b5"
    using 5(1) by (simp only: run_append [of _ "failing_call 3"] bind.simps)
  show ?thesis
    unfolding A B using 4(5) 5(2) by (simp add: readme_options_def)
qed

text \<open>
  Claim C1, amended. For a Closed breaker a reported failure is counted and opens the
  breaker exactly when the failure count of the window, that failure included, reaches
  \<open>maxFailures\<close>. After a sequence of failures reported with nothing in between, to a
  Closed breaker whose window already holds \<open>f\<close> failures, the breaker is Closed exactly
  when the sequence is empty or \<open>f\<close> plus its length is at most \<open>maxFailures - 1\<close>, and
  is Open otherwise: a sequence of at most \<open>maxFailures - 1\<close> failures leaves it Closed
  when the window holds no earlier failure.
\<close>

theorem closed_breaker_opens_at_threshold:
  assumes ok: "status_ok (STATUS b)" and cl: "closed b"
  shows "(\<exists>b'. fail e a b = Some b' \<and> counts b' Failures = counts b Failures + 1
            \<and> (STATE b' = OPEN \<longleftrightarrow> js_ge (counts b' Failures) (maxFailures (options b)))
            \<and> (STATE b' \<noteq> OPEN \<longrightarrow> STATE b' = CLOSED))
       \<and> (\<forall>m. maxFailures (options b) = JNum (Finite (of_int m)) \<longrightarrow>
            (\<exists>b'. fails xs b = Some b'
               \<and> counts b' Failures = counts b Failures + length xs
               \<and> (STATE b' = CLOSED \<longleftrightarrow>
                    xs = [] \<or> int (counts b Failures) + int (length xs) \<le> m - 1)
               \<and> (STATE b' \<noteq> CLOSED \<longrightarrow> STATE b' = OPEN)))"
proof (intro conjI allI impI)
  from cl have st: "STATE b = CLOSED" by (simp add: closed_def)
  from fail_obs [OF ok, of e a] obtain b' where
    "fail e a b = Some b'" "counts b' = add1 Failures (counts b)"
    "STATE b' = (if reopen_rule b then OPEN else STATE b)"
    by blast
  then show "\<exists>b'. fail e a b = Some b' \<and> counts b' Failures = counts b Failures + 1
            \<and> (STATE b' = OPEN \<longleftrightarrow> js_ge (counts b' Failures) (maxFailures (options b)))
            \<and> (STATE b' \<noteq> OPEN \<longrightarrow> STATE b' = CLOSED)"
    using st by (auto simp: add1_def reopen_rule_def)
next
  fix m
  assume mf: "maxFailures (options b) = JNum (Finite (of_int m))"
  from cl have st: "STATE b = CLOSED" by (simp add: closed_def)
  then have nh: "STATE b \<noteq> HALF_OPEN" by simp
  from fails_obs [OF ok nh mf, of xs] st
  show "\<exists>b'. fails xs b = Some b'
               \<and> counts b' Failures = counts b Failures + length xs
               \<and> (STATE b' = CLOSED \<longleftrightarrow>
                    xs = [] \<or> int (counts b Failures) + int (length xs) \<le> m - 1)
               \<and> (STATE b' \<noteq> CLOSED \<longrightarrow> STATE b' = OPEN)"
    by auto
qed

theorem closed_breaker_opens_at_threshold_witness:
  "status_ok (STATUS readme_breaker) \<and> closed readme_breaker
   \<and> maxFailures (options readme_breaker) = JNum (Finite (of_int 3))
   \<and> map_option STATE
        (fails [(ActionError ''REJECT'', []), (ActionError ''REJECT'', [])] readme_breaker)
       = Some CLOSED
   \<and> map_option STATE
        (fails [(ActionError ''REJECT'', []), (ActionError ''REJECT'', []),
                (ActionError ''REJECT'', [])] readme_breaker)
       = Some OPEN"
proof -
  have ok0: "status_ok (STATUS readme_breaker)" using Status_new_ok by simp
  have cl: "closed readme_breaker" by (simp add: closed_def)
  have mf: "maxFailures (options readme_breaker) = JNum (Finite (of_int 3))"
    by (simp add: readme_options_def)
  have f0: "counts readme_breaker Failures = 0"
    by (simp add: counts_def tally_def window_buckets_def
          Status_new_fields upt_conv_Cons new_bucket_def)
  note T = closed_breaker_opens_at_threshold [OF ok0 cl, THEN conjunct2, rule_format, OF mf]
  from T [of "[(ActionError ''REJECT'', []), (ActionError ''REJECT'', [])]"]
  have A: "map_option STATE
        (fails [(ActionError ''REJECT'', []), (ActionError ''REJECT'', [])] readme_breaker)
       = Some CLOSED"
    by (auto simp: f0)
  from T [of "[(ActionError ''REJECT'', []), (ActionError ''REJECT'', []),
                (ActionError ''REJECT'', [])]"]
  have B: "map_option STATE
        (fails [(ActionError ''REJECT'', []), (ActionError ''REJECT'', []),
                (ActionError ''REJECT'', [])] readme_breaker)
       = Some OPEN"
    by (auto simp: f0)
  from ok0 cl mf A B show ?thesis by blast
qed

subsection \<open>C2: an Open breaker rejects calls\<close>

text \<open>
  Claim C2. A call fired while the breaker is neither Closed nor HalfOpen emits \<open>fire\<close>
  and then \<open>reject\<close>, returns a promise rejected with EOPENBREAKER, does not invoke the
  action (and leaves no action promise to settle later), arms no timer, and leaves
  the state, the options and the windowed failure count as they were: only the fires
  and rejects counters grow.
\<close>

theorem open_breaker_rejects_call:
  assumes "status_ok (STATUS b)" and "\<not> closed b \<and> \<not> halfOpen b"
  shows "\<exists>b'. call a act b = Some (length (calls b), b')
     \<and> fire a act b = call a act b
     \<and> emitted b' = emitted b @ [Fire a, Reject EOPENBREAKER]
     \<and> calls b' = calls b @ [\<lparr>call_args = a, call_timeout = None, timeoutError = False,
          promise = Rejected EOPENBREAKER, action_pending = False\<rparr>]
     \<and> invocations b' = invocations b
     \<and> timers b' = timers b
     \<and> STATE b' = STATE b \<and> PENDING_CLOSE b' = PENDING_CLOSE b
     \<and> RESET_TIMEOUT b' = RESET_TIMEOUT b \<and> options b' = options b
     \<and> counts b' = add1 Rejects (add1 Fires (counts b))
     \<and> counts b' Failures = counts b Failures"
proof -
  from assms(2) have "STATE b = OPEN"
    by (cases "STATE b") (simp_all add: closed_def halfOpen_def)
  from call_rejected [OF assms(1) this, of a act] obtain s where
    "status_ok s" "tally s = add1 Rejects (add1 Fires (counts b))"
    "call a act b = Some (length (calls b),
       b\<lparr>emitted := emitted b @ [Fire a, Reject EOPENBREAKER], STATUS := s,
         calls := calls b @ [\<lparr>call_args = a, call_timeout = None, timeoutError = False,
           promise = Rejected EOPENBREAKER, action_pending = False\<rparr>]\<rparr>)"
    by blast
  then show ?thesis by (simp add: fire_def counts_def add1_def)
qed

theorem open_breaker_rejects_call_witness:
  "status_ok (STATUS readme_breaker_open)
   \<and> \<not> closed readme_breaker_open \<and> \<not> halfOpen readme_breaker_open
   \<and> map_option fst (call [''RESOLVE''] Returns readme_breaker_open) = Some 0
   \<and> map_option (emitted \<circ> snd) (call [''RESOLVE''] Returns readme_breaker_open)
       = Some [Open, Fire [''RESOLVE''], Reject EOPENBREAKER]
   \<and> map_option (map promise \<circ> calls \<circ> snd) (call [''RESOLVE''] Returns readme_breaker_open)
       = Some [Rejected EOPENBREAKER]
   \<and> map_option (invocations \<circ> snd) (call [''RESOLVE''] Returns readme_breaker_open) = Some 0"
proof -
  have st: "\<not> closed readme_breaker_open \<and> \<not> halfOpen readme_breaker_open"
    by (simp add: closed_def halfOpen_def readme_breaker_open_def)
  from open_breaker_rejects_call [OF readme_breaker_open_ok st, of "[''RESOLVE'']" Returns]
  show ?thesis using st readme_breaker_open_ok
    by (auto simp: readme_breaker_open_def)
qed

subsection \<open>C3: the outcome of a call decides a HalfOpen breaker\<close>

text \<open>
  Claim C3. While the breaker is HalfOpen, a call whose outcome is taken (its timeout
  has not fired before) closes the breaker when the action fulfils, and opens it when the
  action rejects; a timeout clock that fires opens it too. None of this depends on the
  windowed failure count or on \<open>maxFailures\<close>.
\<close>

theorem half_open_outcome_decides:
  assumes ok: "status_ok (STATUS b)" and ho: "halfOpen b"
  shows "(\<forall>cid v. cid < length (calls b) \<and> action_pending (calls b ! cid)
             \<and> \<not> timeoutError (calls b ! cid) \<longrightarrow>
           (\<exists>b'. action_settles cid (Fulfils v) b = Some b' \<and> STATE b' = CLOSED
               \<and> emitted b' = emitted b @ [Success, Close]))
       \<and> (\<forall>cid e. cid < length (calls b) \<and> action_pending (calls b ! cid)
             \<and> \<not> timeoutError (calls b ! cid) \<longrightarrow>
           (\<exists>b'. action_settles cid (RejectsWith e) b = Some b' \<and> STATE b' = OPEN
               \<and> emitted b' = emitted b @ [Failure e (call_args (calls b ! cid)), Open]))
       \<and> (\<forall>h cid. h < length (timers b) \<and> pending (timers b ! h)
             \<and> callback (timers b ! h) = TimeoutCallback cid \<and> cid < length (calls b) \<longrightarrow>
           (\<exists>b'. timer_fires h b = Some b' \<and> STATE b' = OPEN
               \<and> emitted b' = emitted b @ [Timeout ETIMEDOUT (call_args (calls b ! cid)),
                     Failure ETIMEDOUT (call_args (calls b ! cid)), Open]))"
proof -
  from ho have st: "STATE b = HALF_OPEN" by (simp add: halfOpen_def)
  then have r: "reopen_rule b" "trips b" by (simp_all add: reopen_rule_def trips_def)
  show ?thesis
  proof (intro conjI allI impI)
    fix cid v
    assume "cid < length (calls b) \<and> action_pending (calls b ! cid) \<and> \<not> timeoutError (calls b ! cid)"
    then have c: "cid < length (calls b)" "action_pending (calls b ! cid)"
      "\<not> timeoutError (calls b ! cid)" by simp_all
    from settle_fulfils_obs [OF ok c, of v] st
    show "\<exists>b'. action_settles cid (Fulfils v) b = Some b' \<and> STATE b' = CLOSED
               \<and> emitted b' = emitted b @ [Success, Close]"
      by auto
  next
    fix cid e
    assume "cid < length (calls b) \<and> action_pending (calls b ! cid) \<and> \<not> timeoutError (calls b ! cid)"
    then have c: "cid < length (calls b)" "action_pending (calls b ! cid)"
      "\<not> timeoutError (calls b ! cid)" by simp_all
    from settle_rejects_obs [OF ok c, of e] r
    show "\<exists>b'. action_settles cid (RejectsWith e) b = Some b' \<and> STATE b' = OPEN
               \<and> emitted b' = emitted b @ [Failure e (call_args (calls b ! cid)), Open]"
      by auto
  next
    fix h cid
    assume "h < length (timers b) \<and> pending (timers b ! h)
             \<and> callback (timers b ! h) = TimeoutCallback cid \<and> cid < length (calls b)"
    then have t: "h < length (timers b)" "pending (timers b ! h)"
      "callback (timers b ! h) = TimeoutCallback cid" "cid < length (calls b)" by simp_all
    from timeout_obs [OF ok t] r
    show "\<exists>b'. timer_fires h b = Some b' \<and> STATE b' = OPEN
               \<and> emitted b' = emitted b @ [Timeout ETIMEDOUT (call_args (calls b ! cid)),
                     Failure ETIMEDOUT (call_args (calls b ! cid)), Open]"
      by auto
  qed
qed

theorem half_open_outcome_decides_witness:
  "status_ok (STATUS readme_breaker_probe) \<and> halfOpen readme_breaker_probe
   \<and> \<not> js_ge (counts readme_breaker_probe Failures + 1)
         (maxFailures (options readme_breaker_probe))
   \<and> map_option STATE (action_settles 0 (Fulfils ''RESOLVE'') readme_breaker_probe) = Some CLOSED
   \<and> map_option STATE (action_settles 0 (RejectsWith (ActionError ''REJECT'')) readme_breaker_probe)
       = Some OPEN
   \<and> map_option STATE (timer_fires 1 readme_breaker_probe) = Some OPEN
   \<and> map_option emitted (timer_fires 1 readme_breaker_probe)
       = Some [Open, HalfOpen (JNum (Finite 3000)), Fire [''RESOLVE''],
               Timeout ETIMEDOUT [''RESOLVE''], Failure ETIMEDOUT [''RESOLVE''], Open]"
proof -
  have ho: "halfOpen readme_breaker_probe"
    by (simp add: halfOpen_def readme_breaker_probe_def)
  have f: "counts readme_breaker_probe Failures = 0"
    by (simp add: counts_def tally_def window_buckets_def readme_breaker_probe_def
          Status_new_fields upt_conv_Cons new_bucket_def)
  have nj: "\<not> js_ge (counts readme_breaker_probe Failures + 1)
         (maxFailures (options readme_breaker_probe))"
  proof -
    have "maxFailures (options readme_breaker_probe) = JNum (Finite 3)"
      by (simp add: readme_breaker_probe_def readme_options_def)
    then show ?thesis by (simp add: f js_ge_def)
  qed
  have c: "calls readme_breaker_probe = [readme_call\<lparr>call_timeout := Some 1\<rparr>]"
    "timers readme_breaker_probe
      = [\<lparr>callback = ResetCallback, delay = JNum (Finite 3000), pending = False\<rparr>,
         \<lparr>callback = TimeoutCallback 0, delay = JNum (Finite 100), pending = True\<rparr>]"
    "emitted readme_breaker_probe = [Open, HalfOpen (JNum (Finite 3000)), Fire [''RESOLVE'']]"
    by (simp_all add: readme_breaker_probe_def)
  note T = half_open_outcome_decides [OF readme_breaker_probe_ok ho]
  have "\<exists>b'. action_settles 0 (Fulfils ''RESOLVE'') readme_breaker_probe = Some b' \<and> STATE b' = CLOSED
            \<and> emitted b' = emitted readme_breaker_probe @ [Success, Close]"
    by (rule T [THEN conjunct1, rule_format]) (simp add: c readme_call_def)
  moreover have "\<exists>b'. action_settles 0 (RejectsWith (ActionError ''REJECT'')) readme_breaker_probe = Some b'
            \<and> STATE b' = OPEN
            \<and> emitted b' = emitted readme_breaker_probe
                 @ [Failure (ActionError ''REJECT'') (call_args (calls readme_breaker_probe ! 0)), Open]"
    by (rule T [THEN conjunct2, THEN conjunct1, rule_format]) (simp add: c readme_call_def)
  moreover have "\<exists>b'. timer_fires 1 readme_breaker_probe = Some b' \<and> STATE b' = OPEN
            \<and> emitted b' = emitted readme_breaker_probe
                 @ [Timeout ETIMEDOUT (call_args (calls readme_breaker_probe ! 0)),
                    Failure ETIMEDOUT (call_args (calls readme_breaker_probe ! 0)), Open]"
    by (rule T [THEN conjunct2, THEN conjunct2, rule_format]) (simp add: c readme_call_def)
  ultimately have "map_option STATE (action_settles 0 (Fulfils ''RESOLVE'') readme_breaker_probe) = Some CLOSED"
    "map_option STATE (action_settles 0 (RejectsWith (ActionError ''REJECT'')) readme_breaker_probe)
       = Some OPEN"
    "map_option STATE (timer_fires 1 readme_breaker_probe) = Some OPEN"
    "map_option emitted (timer_fires 1 readme_breaker_probe)
       = Some [Open, HalfOpen (JNum (Finite 3000)), Fire [''RESOLVE''],
               Timeout ETIMEDOUT [''RESOLVE''], Failure ETIMEDOUT [''RESOLVE''], Open]"
    by (auto simp: c readme_call_def)
  with ho nj readme_breaker_probe_ok show ?thesis by auto
qed

subsection \<open>C4: the timeout clock against the action\<close>



subsection \<open>C5: close() and open() are idempotent\<close>

text \<open>
  Claim C5. \<open>close()\<close> on a Closed breaker and \<open>open()\<close> on an Open breaker return the
  state as it is: no field changes, nothing is emitted, no timer is created or cleared.
  In any other state \<open>close()\<close> makes the breaker Closed and emits exactly \<open>close\<close>
  (clearing the cool-down timer), and \<open>open()\<close> makes it Open, emits exactly \<open>open\<close>
  and arms one cool-down timer.
\<close>

theorem close_open_idempotent:
  assumes "status_ok (STATUS b)"
  shows "(STATE b = CLOSED \<longrightarrow> close b = Some b)
       \<and> (STATE b = OPEN \<longrightarrow> open' b = Some b)
       \<and> (STATE b \<noteq> CLOSED \<longrightarrow>
            (\<exists>b'. close b = Some b' \<and> STATE b' = CLOSED \<and> emitted b' = emitted b @ [Close]
                \<and> timers b' = (case RESET_TIMEOUT b of None \<Rightarrow> timers b
                                | Some h \<Rightarrow> cancel h (timers b))))
       \<and> (STATE b \<noteq> OPEN \<longrightarrow>
            (\<exists>b'. open' b = Some b' \<and> STATE b' = OPEN \<and> emitted b' = emitted b @ [Open]
                \<and> timers b' = timers b @
                     [\<lparr>callback = ResetCallback, delay = resetTimeout (options b), pending = True\<rparr>]))"
proof (intro conjI impI)
  assume "STATE b = CLOSED" then show "close b = Some b" by (simp add: close_def)
next
  assume "STATE b = OPEN" then show "open' b = Some b" by (simp add: open'_def)
next
  assume "STATE b \<noteq> CLOSED"
  from close_Some [OF assms this] obtain s where "close b = Some ((restored b)\<lparr>STATUS := s\<rparr>)"
    by blast
  then show "\<exists>b'. close b = Some b' \<and> STATE b' = CLOSED \<and> emitted b' = emitted b @ [Close]
                \<and> timers b' = (case RESET_TIMEOUT b of None \<Rightarrow> timers b
                                | Some h \<Rightarrow> cancel h (timers b))"
    by (simp add: restored_def)
next
  assume "STATE b \<noteq> OPEN"
  from open_Some [OF assms this] obtain s where "open' b = Some ((tripped b)\<lparr>STATUS := s\<rparr>)"
    by blast
  then show "\<exists>b'. open' b = Some b' \<and> STATE b' = OPEN \<and> emitted b' = emitted b @ [Open]
                \<and> timers b' = timers b @
                     [\<lparr>callback = ResetCallback, delay = resetTimeout (options b), pending = True\<rparr>]"
    by (simp add: tripped_def)
qed

theorem close_open_idempotent_witness:
  "status_ok (STATUS readme_breaker)
   \<and> close readme_breaker = Some readme_breaker
   \<and> map_option STATE (open' readme_breaker) = Some OPEN
   \<and> map_option emitted (open' readme_breaker) = Some [Open]
   \<and> map_option (map delay \<circ> timers) (open' readme_breaker) = Some [JNum (Finite 3000)]"
  using close_open_idempotent [of readme_breaker] Status_new_ok
  by (auto simp: readme_options_def)

subsection \<open>C6: stats sums the window, rotation forgets\<close>



subsection \<open>C7: a disabled timeout\<close>

text \<open>
  Claim C7, as stated, fails: with the timeout disabled, a call fired while the breaker
  is Open ends rejected with EOPENBREAKER, and the action is not invoked at all, so
  that outcome is neither the action's success nor its failure.
\<close>

theorem gate_rejects_untimed_call_counterexample:
  "timeout untimed_options = JBool False
   \<and> map_option (map promise \<circ> calls)
        (CircuitBreaker_new True untimed_options \<bind> run [DoOpen, DoFire [] Returns])
       = Some [Rejected EOPENBREAKER]
   \<and> map_option invocations
        (CircuitBreaker_new True untimed_options \<bind> run [DoOpen, DoFire [] Returns])
       = Some 0"
proof -
  have off: "timeout untimed_options = JBool False"
    by (simp add: untimed_options_def no_options_def)
  obtain b0 where b0: "CircuitBreaker_new True untimed_options = Some b0"
    by (simp add: CircuitBreaker_new_def)
  note n = new_disabled [OF b0 off]
  from open_Some [of b0] n obtain s where
    o: "open' b0 = Some ((tripped b0)\<lparr>STATUS := s\<rparr>)" and s: "status_ok s"
    by auto
  let ?b1 = "(tripped b0)\<lparr>STATUS := s\<rparr>"
  from call_rejected [of ?b1 "[]" Returns] s obtain s' where
    c: "call [] Returns ?b1 = Some (length (calls ?b1),
       ?b1\<lparr>emitted := emitted ?b1 @ [Fire [], Reject EOPENBREAKER], STATUS := s',
         calls := calls ?b1 @ [\<lparr>call_args = [], call_timeout = None, timeoutError = False,
           promise = Rejected EOPENBREAKER, action_pending = False\<rparr>]\<rparr>)"
    by auto
  show ?thesis
    using off b0 o c n by (simp add: fire_def)
qed

text \<open>
  Claim C7, amended. In every state that a breaker constructed with \<open>timeout: false\<close>
  reaches, every timer is a cool-down timer, no call holds a timeout clock or has timed
  out, no \<open>timeout\<close> event has been emitted and the timeouts counter of the window is
  zero; and whatever step comes next, the promise of an earlier call is left as it is or
  takes the outcome with which that call's action settles, and a call fired in that step
  is rejected with EOPENBREAKER when the breaker is Open, and otherwise is rejected with
  what the action throws or waits for the action's promise.
\<close>

theorem disabled_timeout_never_times_out:
  assumes "CircuitBreaker_new True opts = Some b0" and "timeout opts = JBool False"
  shows "\<exists>b. run steps b0 = Some b
           \<and> timeout_disabled b
           \<and> counts b Timeouts = 0
           \<and> (\<forall>st. \<exists>b'. exec st b = Some b' \<and> decided_by_action st b b')"
proof -
  note n = new_disabled [OF assms]
  from run_disabled [OF n(1,2), of steps] obtain b where
    r: "run steps b0 = Some b" "status_ok (STATUS b)" "timeout_disabled b"
      "counts b Timeouts \<le> counts b0 Timeouts"
    by blast
  have "\<exists>b'. exec st b = Some b' \<and> decided_by_action st b b'" for st
    using exec_disabled [OF r(2,3), of st] by blast
  with r n(3) show ?thesis by auto
qed

theorem disabled_timeout_never_times_out_witness:
  "timeout untimed_options = JBool False
   \<and> (case CircuitBreaker_new True untimed_options
             \<bind> run [DoFire [''RESOLVE''] Returns, ActionSettles 0 (Fulfils ''RESOLVE''),
                      TimerFires 0]
       of None \<Rightarrow> False
        | Some b \<Rightarrow> timeout_disabled b \<and> counts b Timeouts = 0 \<and> timers b = []
            \<and> map promise (calls b) = [Resolved ''RESOLVE'']
            \<and> emitted b = [Fire [''RESOLVE''], Success])"
proof -
  let ?steps = "[DoFire [''RESOLVE''] Returns, ActionSettles 0 (Fulfils ''RESOLVE''), TimerFires 0]"
  have off: "timeout untimed_options = JBool False"
    by (simp add: untimed_options_def no_options_def)
  obtain b0 where b0: "CircuitBreaker_new True untimed_options = Some b0"
    by (simp add: CircuitBreaker_new_def)
  note n = new_disabled [OF b0 off]
  from disabled_timeout_never_times_out [OF b0 off, of ?steps] obtain b where
    r: "run ?steps b0 = Some b" "timeout_disabled b" "counts b Timeouts = 0"
    by blast
  have adm: "STATE b0 \<noteq> OPEN" using n(4) by simp
  from call_admitted [OF n(1) adm, of "[''RESOLVE'']"] obtain s where s: "status_ok s"
    and c: "call [''RESOLVE''] Returns b0 = Some (0,
        update_call 0 (\<lambda>c. c\<lparr>action_pending := True\<rparr>) (entered [''RESOLVE''] s b0))"
    using n(5) by auto
  let ?b1 = "update_call 0 (\<lambda>c. c\<lparr>action_pending := True\<rparr>) (entered [''RESOLVE''] s b0)"
  have ar: "armed b0 = None" by (rule td_armed [OF n(2)])
  have b1: "status_ok (STATUS ?b1)" "0 < length (calls ?b1)" "action_pending (calls ?b1 ! 0)"
    "\<not> timeoutError (calls ?b1 ! 0)" "STATE ?b1 = CLOSED" "emitted ?b1 = [Fire [''RESOLVE'']]"
    "timers ?b1 = []" "promise (calls ?b1 ! 0) = Pending" "length (calls ?b1) = 1"
    using s n(4-7) n(2)
    by (simp_all add: entered_def update_call_def ar timeout_disabled_def)
  from settle_fulfils_obs [OF b1(1-4), of "''RESOLVE''"] obtain b2 where
    2: "action_settles 0 (Fulfils ''RESOLVE'') ?b1 = Some b2"
      "emitted b2 = [Fire [''RESOLVE''], Success]" "length (timers b2) = 0"
      "calls b2 = (calls ?b1)[0 := settle_promise (Resolved ''RESOLVE'')
                                     ((calls ?b1 ! 0)\<lparr>action_pending := False\<rparr>)]"
    using b1(5-7) by auto
  have t2: "timer_fires 0 b2 = Some b2" using 2(3) by (simp add: timer_fires_def)
  have "run ?steps b0 = Some b2" using c 2(1) t2 by (simp add: fire_def)
  with r(1) have eq: "b = b2" by simp
  have p: "map promise (calls b2) = [Resolved ''RESOLVE'']"
    using 2(4) b1(8,9) by (cases "calls ?b1") (simp_all add: promise_settle)
  show ?thesis
    using off b0 r eq 2(2,3) p by simp
qed

subsection \<open>C8: the default of resetTimeout\<close>

text \<open>
  Claim C8. A breaker constructed without \<open>resetTimeout\<close> gets 30000 as its effective
  \<open>resetTimeout\<close>, and its cool-down timer is armed with a delay of 30000, not 10000.
\<close>

theorem default_resetTimeout_is_30000:
  "map_option (resetTimeout \<circ> options) (CircuitBreaker_new True no_options)
     = Some (JNum (Finite 30000))
   \<and> map_option (map delay \<circ> timers) (CircuitBreaker_new True no_options \<bind> open')
     = Some [JNum (Finite 30000)]"
proof -
  obtain b0 where b0: "CircuitBreaker_new True no_options = Some b0"
    and f: "resetTimeout (options b0) = JNum (Finite 30000)" "STATE b0 = CLOSED"
      "STATUS b0 = Status_new" "timers b0 = []"
    by (simp add: CircuitBreaker_new_def no_options_def js_or_def)
  from open_Some [of b0] f Status_new_ok obtain s where
    "open' b0 = Some ((tripped b0)\<lparr>STATUS := s\<rparr>)"
    by auto
  with b0 f show ?thesis by simp
qed

subsection \<open>C9: defaults of the constructor\<close>

text \<open>
  Claim C9, as stated, fails: \<open>maxFailures: 0\<close> is falsy and is not \<open>false\<close>, and the
  constructor keeps it instead of the default 10.
\<close>

theorem falsy_maxFailures_kept_counterexample:
  "\<not> truthy (JNum (Finite 0)) \<and> JNum (Finite 0) \<noteq> JBool False
   \<and> map_option (maxFailures \<circ> options)
        (CircuitBreaker_new True (no_options\<lparr>maxFailures := JNum (Finite 0)\<rparr>))
       = Some (JNum (Finite 0))
   \<and> map_option (maxFailures \<circ> options) (CircuitBreaker_new True no_options)
       = Some (JNum (Finite 10))"
  by (simp add: CircuitBreaker_new_def no_options_def)

text \<open>
  Claim C9, amended. A \<open>timeout\<close> that is falsy and not \<open>false\<close> (\<open>0\<close> for one) becomes
  the default 10000; a falsy \<open>resetTimeout\<close> (\<open>0\<close> for one) becomes what an absent
  \<open>resetTimeout\<close> becomes; \<open>maxFailures\<close> becomes the default 10 exactly when it is not
  an integer, and an integer, \<open>0\<close> included, is kept; \<open>debug\<close> becomes a boolean. Truthy
  values of \<open>timeout\<close> and \<open>resetTimeout\<close>, and \<open>timeout: false\<close>, are kept.
\<close>

theorem constructor_defaults:
  assumes "CircuitBreaker_new True opts = Some b"
  shows "(\<not> truthy (timeout opts) \<and> timeout opts \<noteq> JBool False
            \<longrightarrow> timeout (options b) = JNum (Finite 10000))
       \<and> (timeout opts = JBool False \<or> truthy (timeout opts)
            \<longrightarrow> timeout (options b) = timeout opts)
       \<and> (\<not> truthy (resetTimeout opts)
            \<longrightarrow> map_option (resetTimeout \<circ> options)
                  (CircuitBreaker_new True (opts\<lparr>resetTimeout := Undefined\<rparr>))
                = Some (resetTimeout (options b)))
       \<and> (truthy (resetTimeout opts) \<longrightarrow> resetTimeout (options b) = resetTimeout opts)
       \<and> (\<not> isInteger (maxFailures opts) \<longrightarrow> maxFailures (options b) = JNum (Finite 10))
       \<and> (isInteger (maxFailures opts) \<longrightarrow> maxFailures (options b) = maxFailures opts)
       \<and> debug (options b) = JBool (truthy (debug opts))"
  using assms by (auto simp: CircuitBreaker_new_def js_or_def)

theorem constructor_defaults_witness:
  "map_option (timeout \<circ> options)
      (CircuitBreaker_new True
         \<lparr>timeout = JNum (Finite 0), resetTimeout = JNum (Finite 0),
          maxFailures = JNum (Finite (1 / 2)), debug = Undefined\<rparr>)
     = Some (JNum (Finite 10000))
   \<and> map_option (resetTimeout \<circ> options)
      (CircuitBreaker_new True
         \<lparr>timeout = JNum (Finite 0), resetTimeout = JNum (Finite 0),
          maxFailures = JNum (Finite (1 / 2)), debug = Undefined\<rparr>)
     = map_option (resetTimeout \<circ> options)
      (CircuitBreaker_new True
         \<lparr>timeout = JNum (Finite 0), resetTimeout = Undefined,
          maxFailures = JNum (Finite (1 / 2)), debug = Undefined\<rparr>)
   \<and> map_option (maxFailures \<circ> options)
      (CircuitBreaker_new True
         \<lparr>timeout = JNum (Finite 0), resetTimeout = JNum (Finite 0),
          maxFailures = JNum (Finite (1 / 2)), debug = Undefined\<rparr>)
     = Some (JNum (Finite 10))"
proof -
  let ?opts = "\<lparr>timeout = JNum (Finite 0), resetTimeout = JNum (Finite 0),
          maxFailures = JNum (Finite (1 / 2)), debug = Undefined\<rparr>"
  obtain b where b: "CircuitBreaker_new True ?opts = Some b"
    by (simp add: CircuitBreaker_new_def)
  have fl: "\<lfloor>1 / 2 :: rat\<rfloor> = 0" by (rule floor_unique) simp_all
  have h: "\<not> truthy (timeout ?opts) \<and> timeout ?opts \<noteq> JBool False"
    "\<not> truthy (resetTimeout ?opts)" "\<not> isInteger (maxFailures ?opts)"
    by (simp_all add: fl)
  from constructor_defaults [OF b] h b show ?thesis by auto
qed

subsection \<open>C10: an action that throws\<close>

text \<open>
  Claim C10. A call whose action throws when invoked ends in the state that the same
  call reaches when the action returns a promise that rejects with the same error: the
  action is invoked once, \<open>failure\<close> is emitted and counted after \<open>fire\<close>, the reopen
  rule is evaluated, the timeout clock that was armed is cleared, and the caller's promise
  is rejected with the thrown error itself.
\<close>

theorem sync_throw_handled_as_failure:
  assumes ok: "status_ok (STATUS b)"
  shows "call a (Throws e) b
           = call a Returns b \<bind>
               (\<lambda>(cid, b'). map_option (Pair cid) (action_settles cid (RejectsWith e) b'))
       \<and> (STATE b \<noteq> OPEN \<longrightarrow>
            (\<exists>b'. call a (Throws e) b = Some (length (calls b), b')
               \<and> invocations b' = invocations b + 1
               \<and> emitted b' = emitted b @ [Fire a, Failure e a] @ (if trips b then [Open] else [])
               \<and> counts b' = add1 Failures (add1 Fires (counts b))
               \<and> STATE b' = (if reopen_rule b then OPEN else STATE b)
               \<and> promise (calls b' ! length (calls b)) = Rejected e
               \<and> (\<forall>h. call_timeout (calls b' ! length (calls b)) = Some h \<longrightarrow>
                      h < length (timers b')
                      \<and> callback (timers b' ! h) = TimeoutCallback (length (calls b))
                      \<and> \<not> pending (timers b' ! h)
                      \<and> timer_fires h b' = Some b')))"
proof (intro conjI impI)
  show "call a (Throws e) b
           = call a Returns b \<bind>
               (\<lambda>(cid, b'). map_option (Pair cid) (action_settles cid (RejectsWith e) b'))"
    by (rule throw_equals_rejection [OF ok])
next
  assume adm: "STATE b \<noteq> OPEN"
  from throw_obs [OF ok adm, of a e] obtain b' where
    c: "call a (Throws e) b = Some (length (calls b), b')"
    and r: "invocations b' = invocations b + 1"
      "emitted b' = emitted b @ [Fire a, Failure e a] @ (if trips b then [Open] else [])"
      "counts b' = add1 Failures (add1 Fires (counts b))"
      "STATE b' = (if reopen_rule b then OPEN else STATE b)"
    and cl: "calls b' ! length (calls b)
         = \<lparr>call_args = a, call_timeout = armed b, timeoutError = False,
            promise = Rejected e, action_pending = False\<rparr>"
    and tm: "timers b' = timers (clearTimeout (armed b) (entered a (STATUS b) b)) @
          (if trips b
           then [\<lparr>callback = ResetCallback, delay = resetTimeout (options b), pending = True\<rparr>]
           else [])"
    by blast
  have clock: "h < length (timers b')
                      \<and> callback (timers b' ! h) = TimeoutCallback (length (calls b))
                      \<and> \<not> pending (timers b' ! h)
                      \<and> timer_fires h b' = Some b'"
    if "call_timeout (calls b' ! length (calls b)) = Some h" for h
  proof -
    from that cl have a: "armed b = Some h" by simp
    then have h: "h = length (timers b)" by (rule armed_Some)
    have "timers b' = timers b @
        [\<lparr>callback = TimeoutCallback (length (calls b)), delay = timeout (options b),
          pending = False\<rparr>] @
          (if trips b
           then [\<lparr>callback = ResetCallback, delay = resetTimeout (options b), pending = True\<rparr>]
           else [])"
      using tm a h by (simp add: clearTimeout_def cancel_def timers_entered)
    then have "h < length (timers b')"
      "callback (timers b' ! h) = TimeoutCallback (length (calls b))"
      "\<not> pending (timers b' ! h)"
      using h by (simp_all add: nth_append)
    then show ?thesis by (simp add: timer_fires_def)
  qed
  from c r cl clock
  show "\<exists>b'. call a (Throws e) b = Some (length (calls b), b')
               \<and> invocations b' = invocations b + 1
               \<and> emitted b' = emitted b @ [Fire a, Failure e a] @ (if trips b then [Open] else [])
               \<and> counts b' = add1 Failures (add1 Fires (counts b))
               \<and> STATE b' = (if reopen_rule b then OPEN else STATE b)
               \<and> promise (calls b' ! length (calls b)) = Rejected e
               \<and> (\<forall>h. call_timeout (calls b' ! length (calls b)) = Some h \<longrightarrow>
                      h < length (timers b')
                      \<and> callback (timers b' ! h) = TimeoutCallback (length (calls b))
                      \<and> \<not> pending (timers b' ! h)
                      \<and> timer_fires h b' = Some b')"
    by (intro exI [of _ b']) simp
qed

theorem sync_throw_handled_as_failure_witness:
  "status_ok (STATUS readme_breaker) \<and> STATE readme_breaker \<noteq> OPEN
   \<and> map_option (emitted \<circ> snd) (call [''x''] (Throws (ActionError ''boom'')) readme_breaker)
       = Some [Fire [''x''], Failure (ActionError ''boom'') [''x'']]
   \<and> map_option (map promise \<circ> calls \<circ> snd)
        (call [''x''] (Throws (ActionError ''boom'')) readme_breaker)
       = Some [Rejected (ActionError ''boom'')]
   \<and> map_option (map pending \<circ> timers \<circ> snd)
        (call [''x''] (Throws (ActionError ''boom'')) readme_breaker)
       = Some [False]
   \<and> call [''x''] (Throws (ActionError ''boom'')) readme_breaker
       = call [''x''] Returns readme_breaker \<bind>
           (\<lambda>(cid, b'). map_option (Pair cid)
              (action_settles cid (RejectsWith (ActionError ''boom'')) b'))"
proof -
  have ok: "status_ok (STATUS readme_breaker)" using Status_new_ok by simp
  have f: "counts readme_breaker Failures = 0"
    by (simp add: counts_def tally_def window_buckets_def
          Status_new_fields upt_conv_Cons new_bucket_def)
  have nt: "\<not> trips readme_breaker"
    by (simp add: trips_def reopen_rule_def f js_ge_def readme_options_def)
  note T = sync_throw_handled_as_failure [OF ok, of "[''x'']" "ActionError ''boom''"]
  from T [THEN conjunct2] obtain b' where
    c: "call [''x''] (Throws (ActionError ''boom'')) readme_breaker = Some (0, b')"
    and r: "emitted b' = [Fire [''x''], Failure (ActionError ''boom'') [''x'']]"
      "promise (calls b' ! 0) = Rejected (ActionError ''boom'')"
    and clock: "\<forall>h. call_timeout (calls b' ! 0) = Some h \<longrightarrow>
                      h < length (timers b') \<and> callback (timers b' ! h) = TimeoutCallback 0
                      \<and> \<not> pending (timers b' ! h) \<and> timer_fires h b' = Some b'"
    by (auto simp: nt)
  from throw_obs [of readme_breaker "[''x'']" "ActionError ''boom''"] ok c
  have more: "length (calls b') = 1" "call_timeout (calls b' ! 0) = Some 0"
    "length (timers b') = 1"
    by (auto simp: nt armed_def readme_options_def timers_entered)
  from clock more have np: "\<not> pending (timers b' ! 0)" by blast
  have m1: "map promise (calls b') = [Rejected (ActionError ''boom'')]"
    using more(1) r(2) by (cases "calls b'") simp_all
  have m2: "map pending (timers b') = [False]"
    using more(3) np by (cases "timers b'") simp_all
  show ?thesis
    using ok c r m1 m2 T [THEN conjunct1] by simp
qed

end
